theory Spec2Isabelle
  imports Main "HOL-Library.Word"
begin

section \<open>The distance kernel (main.cpp, lines 105-157)\<close>

text \<open>
  \<^verbatim>\<open>Matrix<T>\<close> is a row-major array of \<open>R * C\<close> cells; \<^verbatim>\<open>at(i, j)\<close> is the cell
  \<open>buffer[i * C + j]\<close>. The sizes are \<^verbatim>\<open>size_t\<close>; they are modelled by \<open>nat\<close>: every
  index the kernel computes is at most \<open>(len1 + 1) * (len2 + 1)\<close>, the number of
  cells it has allocated, so no operation of it wraps.
\<close>

record 'a Matrix =
  Matrix_buffer :: "'a list"
  Matrix_R :: nat
  Matrix_C :: nat

text \<open>
  \<^verbatim>\<open>new T[r * c]\<close> leaves the cells indeterminate. The constructor of the model fills
  them with \<open>0\<close>; lemma \<open>table_any_start\<close> below shows that the kernel's result is
  the same from every start content, since each cell is written before it is read.
\<close>

definition Matrix_new :: "nat \<Rightarrow> nat \<Rightarrow> nat Matrix" where
  "Matrix_new r c = \<lparr>Matrix_buffer = replicate (r * c) 0, Matrix_R = r, Matrix_C = c\<rparr>"

definition at :: "'a Matrix \<Rightarrow> nat \<Rightarrow> nat \<Rightarrow> 'a" where
  "at m i j = Matrix_buffer m ! (i * Matrix_C m + j)"

text \<open>The assignment \<^verbatim>\<open>matrix.at(i, j) = v\<close>.\<close>

definition at_assign :: "'a Matrix \<Rightarrow> nat \<Rightarrow> nat \<Rightarrow> 'a \<Rightarrow> 'a Matrix" where
  "at_assign m i j v = m\<lparr>Matrix_buffer := (Matrix_buffer m)[i * Matrix_C m + j := v]\<rparr>"

text \<open>
  Lines 130-133: \<^verbatim>\<open>while (len1 > 0 && len2 > 0 && one[len1-1] == two[len2-1])\<close>.
  The reads are in range: \<open>len1 \<le> length one\<close> and \<open>len2 \<le> length two\<close> throughout.
\<close>

function strip_suffix :: "'a list \<Rightarrow> 'a list \<Rightarrow> nat \<Rightarrow> nat \<Rightarrow> nat \<times> nat" where
  "strip_suffix one two len1 len2 =
     (if len1 > 0 \<and> len2 > 0 \<and> one ! (len1 - 1) = two ! (len2 - 1)
      then strip_suffix one two (len1 - 1) (len2 - 1)
      else (len1, len2))"
  by pat_completeness auto
termination
  by (relation "measure (\<lambda>(one, two, len1, len2). len1)") auto

declare strip_suffix.simps [simp del]

text \<open>Lines 143-144: \<^verbatim>\<open>for (size_t j = 1; j <= len2; j++) matrix.at(0, j) = j;\<close>\<close>

function row0_loop :: "nat \<Rightarrow> nat \<Rightarrow> nat Matrix \<Rightarrow> nat Matrix" where
  "row0_loop len2 j matrix =
     (if j \<le> len2 then row0_loop len2 (j + 1) (at_assign matrix 0 j j) else matrix)"
  by pat_completeness auto
termination
  by (relation "measure (\<lambda>(len2, j, matrix). Suc len2 - j)") auto

declare row0_loop.simps [simp del]

text \<open>Lines 149-152: the body of the inner loop, the new value of cell \<open>(i, j)\<close>.\<close>

definition cell_value :: "'a list \<Rightarrow> 'a list \<Rightarrow> nat Matrix \<Rightarrow> nat \<Rightarrow> nat \<Rightarrow> nat" where
  "cell_value one two matrix i j =
     (if one ! (i - 1) = two ! (j - 1)
      then at matrix (i - 1) (j - 1)
      else 1 + min (at matrix (i - 1) (j - 1))
                   (min (at matrix (i - 1) j) (at matrix i (j - 1))))"

text \<open>Lines 148-153: \<^verbatim>\<open>for (size_t j = 1; j <= len2; j++)\<close>, in row \<open>i\<close>.\<close>

function inner_loop :: "'a list \<Rightarrow> 'a list \<Rightarrow> nat \<Rightarrow> nat \<Rightarrow> nat \<Rightarrow> nat Matrix \<Rightarrow> nat Matrix" where
  "inner_loop one two len2 i j matrix =
     (if j \<le> len2
      then inner_loop one two len2 i (j + 1)
             (at_assign matrix i j (cell_value one two matrix i j))
      else matrix)"
  by pat_completeness auto
termination
  by (relation "measure (\<lambda>(one, two, len2, i, j, matrix). Suc len2 - j)") auto

declare inner_loop.simps [simp del]

text \<open>Lines 146-154: \<^verbatim>\<open>for (size_t i = 1; i <= len1; i++)\<close>.\<close>

function outer_loop :: "'a list \<Rightarrow> 'a list \<Rightarrow> nat \<Rightarrow> nat \<Rightarrow> nat \<Rightarrow> nat Matrix \<Rightarrow> nat Matrix" where
  "outer_loop one two len1 len2 i matrix =
     (if i \<le> len1
      then outer_loop one two len1 len2 (i + 1)
             (inner_loop one two len2 i 1 (at_assign matrix i 0 i))
      else matrix)"
  by pat_completeness auto
termination
  by (relation "measure (\<lambda>(one, two, len1, len2, i, matrix). Suc len1 - i)") auto

declare outer_loop.simps [simp del]

text \<open>Lines 142-156: the table is filled from a start content and its last cell returned.\<close>

definition fill_table :: "'a list \<Rightarrow> 'a list \<Rightarrow> nat \<Rightarrow> nat \<Rightarrow> nat Matrix \<Rightarrow> nat Matrix" where
  "fill_table one two len1 len2 matrix =
     outer_loop one two len1 len2 1 (row0_loop len2 1 (at_assign matrix 0 0 0))"

definition table_distance :: "'a list \<Rightarrow> 'a list \<Rightarrow> nat \<Rightarrow> nat \<Rightarrow> nat" where
  "table_distance one two len1 len2 =
     at (fill_table one two len1 len2 (Matrix_new (len1 + 1) (len2 + 1))) len1 len2"

text \<open>Lines 123-157.\<close>

definition slow_edit_distance :: "'a list \<Rightarrow> 'a list \<Rightarrow> nat" where
  "slow_edit_distance one two =
     (case strip_suffix one two (length one) (length two) of
        (len1, len2) \<Rightarrow>
          if len1 = 0 then len2
          else if len2 = 0 then len1
          else table_distance one two len1 len2)"

text \<open>
  The dynamic-programming computation of the specification, section 4.2 step 3, on the
  whole sequences: the table of \<open>(len_a + 1) \<times> (len_b + 1)\<close> cells, with neither the
  suffix stripping of step 1 nor the shortcut of step 2.
\<close>

definition plain_edit_distance :: "'a list \<Rightarrow> 'a list \<Rightarrow> nat" where
  "plain_edit_distance seq_a seq_b = table_distance seq_a seq_b (length seq_a) (length seq_b)"

subsection \<open>Edit operations\<close>

text \<open>
  One single-token edit of a sequence: a token is inserted, deleted or replaced at any
  position. \<open>(edit1 ^^ n) A B\<close> says that \<open>n\<close> such edits, one after the other,
  transform \<open>A\<close> into \<open>B\<close>.
\<close>

inductive edit1 :: "'a list \<Rightarrow> 'a list \<Rightarrow> bool" where
  insertion: "edit1 (p @ s) (p @ a # s)"
| deletion: "edit1 (p @ a # s) (p @ s)"
| substitution: "edit1 (p @ a # s) (p @ b # s)"

text \<open>
  The value of the table cell \<open>(i, j)\<close>: the recurrence of the kernel on the prefixes of
  length \<open>i\<close> and \<open>j\<close>.
\<close>

fun cell :: "'a list \<Rightarrow> 'a list \<Rightarrow> nat \<Rightarrow> nat \<Rightarrow> nat" where
  "cell one two 0 j = j"
| "cell one two (Suc i) 0 = Suc i"
| "cell one two (Suc i) (Suc j) =
     (if one ! i = two ! j then cell one two i j
      else 1 + min (cell one two i j) (min (cell one two i (Suc j)) (cell one two (Suc i) j)))"

text \<open>The same recurrence on lists, from the head.\<close>

fun lev :: "'a list \<Rightarrow> 'a list \<Rightarrow> nat" where
  "lev [] ys = length ys"
| "lev (x # xs) [] = Suc (length xs)"
| "lev (x # xs) (y # ys) =
     (if x = y then lev xs ys
      else 1 + min (lev xs ys) (min (lev xs (y # ys)) (lev (x # xs) ys)))"

text \<open>The table is well-formed for the lengths, and filled up to, not including, cell \<open>(i, j)\<close>.\<close>

definition table_ok :: "nat Matrix \<Rightarrow> nat \<Rightarrow> nat \<Rightarrow> bool" where
  "table_ok m len1 len2 \<longleftrightarrow>
     Matrix_C m = len2 + 1 \<and> length (Matrix_buffer m) = (len1 + 1) * (len2 + 1)"

definition filled :: "'a list \<Rightarrow> 'a list \<Rightarrow> nat Matrix \<Rightarrow> nat \<Rightarrow> nat \<Rightarrow> nat \<Rightarrow> bool" where
  "filled one two m len2 i j \<longleftrightarrow>
     (\<forall>i' j'. j' \<le> len2 \<and> (i' < i \<or> (i' = i \<and> j' < j)) \<longrightarrow> at m i' j' = cell one two i' j')"

section \<open>Splitting a string at a separator (main.cpp, lines 159-176)\<close>

text \<open>
  \<^verbatim>\<open>from.find(c, pos)\<close>: the first index at or after \<open>pos\<close> that holds \<open>c\<close>;
  \<^verbatim>\<open>npos\<close>, here \<open>None\<close>, when there is none.
\<close>

function string_find :: "string \<Rightarrow> char \<Rightarrow> nat \<Rightarrow> nat option" where
  "string_find from c pos =
     (if pos < length from
      then (if from ! pos = c then Some pos else string_find from c (pos + 1))
      else None)"
  by pat_completeness auto
termination
  by (relation "measure (\<lambda>(from, c, pos). length from - pos)") auto

declare string_find.simps [simp del]

lemma string_find_bounds:
  "string_find from c pos = Some n \<Longrightarrow> pos \<le> n \<and> n < length from"
proof (induction "from" c pos rule: string_find.induct)
  case (1 "from" c pos)
  from "1.prems" show ?case
    by (subst (asm) string_find.simps) (auto split: if_splits dest: "1.IH")
qed

text \<open>
  Lines 165-171: the loop over the separators. \<open>current\<close> is the start of the
  segment being read, \<open>next\<close> the position of the separator that ends it.
  \<^verbatim>\<open>std::string_view(from.data() + current, next - current)\<close> is the view of
  \<open>next - current\<close> characters from index \<open>current\<close>; a view is modelled by the
  characters it shows.
\<close>

function split_loop ::
  "string \<Rightarrow> char \<Rightarrow> nat \<Rightarrow> nat option \<Rightarrow> string list \<Rightarrow> nat \<times> string list" where
  "split_loop from c current next output =
     (case next of
        None \<Rightarrow> (current, output)
      | Some n \<Rightarrow>
          split_loop from c (n + 1) (string_find from c (n + 1))
            (output @ [take (n - current) (drop current from)]))"
  by pat_completeness auto
termination
proof (relation "measure (\<lambda>(from, c, current, next, output).
    case next of None \<Rightarrow> 0 | Some n \<Rightarrow> Suc (length from - n))")
  show "wf (measure (\<lambda>(from, c, current, next, output).
    case next of None \<Rightarrow> 0 | Some n \<Rightarrow> Suc (length from - n)))"
    by simp
next
  fix "from" :: string and c :: char and current :: nat and "next" :: "nat option"
    and out :: "string list" and n :: nat
  assume "next = Some n"
  show "((from, c, n + 1, string_find from c (n + 1),
          out @ [take (n - current) (drop current from)]),
         (from, c, current, next, out))
        \<in> measure (\<lambda>(from, c, current, next, output).
            case next of None \<Rightarrow> 0 | Some n \<Rightarrow> Suc (length from - n))"
  proof (cases "string_find from c (n + 1)")
    case None
    then show ?thesis using \<open>next = Some n\<close> by simp
  next
    case (Some n')
    then have "n + 1 \<le> n' \<and> n' < length from" by (rule string_find_bounds)
    then have "length from - n' < length from - n" by arith
    then show ?thesis using Some \<open>next = Some n\<close> by simp
  qed
qed

declare split_loop.simps [simp del]

text \<open>Lines 161-176.\<close>

definition string_split :: "string \<Rightarrow> char \<Rightarrow> string list" where
  "string_split from c =
     (case split_loop from c 0 (string_find from c 0) [] of
        (current, output) \<Rightarrow>
          if current \<noteq> length from
          then output @ [take (length from - current) (drop current from)]
          else output)"

text \<open>
  All the segments of a string: the pieces between the separators, one more than there
  are separators, the last being what follows the final separator.
\<close>

fun segments :: "char \<Rightarrow> string \<Rightarrow> string list" where
  "segments c [] = [[]]"
| "segments c (x # xs) =
     (if x = c then [] # segments c xs
      else (x # hd (segments c xs)) # tl (segments c xs))"

section \<open>The record store and its loader (main.cpp, lines 178-222)\<close>

text \<open>
  A \<^verbatim>\<open>Field\<close> is a vector of views into the buffered text. The model keeps, for
  each view, the characters it shows when \<^verbatim>\<open>load\<close> makes it. In the source the views
  point into the strings of \<^verbatim>\<open>buffer\<close>, and a later \<^verbatim>\<open>emplace_back\<close> on that vector
  can move these strings (the characters of a short string lie inside the string
  object), after which an earlier view no longer shows them. So the characters of a
  record are those of its line at the time the line is parsed; \<^verbatim>\<open>load\<close> does not
  fix what the views show afterwards. The sizes, that is how many records, fields and
  tokens there are and how long each is, are held by the vectors and the views
  themselves and do not change.
\<close>

type_synonym Field = "string list"

record Line =
  line_id :: string
  line_fields :: "Field list"

abbreviation TAB :: char where
  "TAB \<equiv> CHR 0x09"

abbreviation NL :: char where
  "NL \<equiv> CHR 0x0A"

text \<open>
  The input file, as the stream sees it: it cannot be opened; or it opens and gives its
  characters up to its end; or it opens, gives some characters, and then a read fails
  (as for a directory, or a device error).
\<close>

datatype input_file = Unopenable | Readable string | Failing string

text \<open>
  \<^verbatim>\<open>std::ifstream\<close>, after the C++ standard library: the state bits \<^verbatim>\<open>eofbit\<close>,
  \<^verbatim>\<open>failbit\<close> and \<^verbatim>\<open>badbit\<close>, and of the file behind the stream the characters not
  yet read and whether a read error, not the end of the file, follows them. The
  constructor sets \<^verbatim>\<open>failbit\<close>, and nothing else, when the file cannot be opened.
\<close>

record ifstream =
  unread :: string
  error_follows :: bool
  eofbit :: bool
  failbit :: bool
  badbit :: bool

definition ifstream_open :: "input_file \<Rightarrow> ifstream" where
  "ifstream_open file =
     (case file of
        Unopenable \<Rightarrow>
          \<lparr>unread = [], error_follows = False, eofbit = False, failbit = True, badbit = False\<rparr>
      | Readable content \<Rightarrow>
          \<lparr>unread = content, error_follows = False, eofbit = False, failbit = False,
           badbit = False\<rparr>
      | Failing content \<Rightarrow>
          \<lparr>unread = content, error_follows = True, eofbit = False, failbit = False,
           badbit = False\<rparr>)"

text \<open>
  \<^verbatim>\<open>std::getline(fp, line)\<close>. On a stream that is not good it sets \<^verbatim>\<open>failbit\<close> and
  leaves \<open>line\<close> as it is. Otherwise it clears \<open>line\<close> and reads up to the next
  newline, which it consumes. When the input ends first it sets \<^verbatim>\<open>eofbit\<close>; when a
  read fails first it sets \<^verbatim>\<open>badbit\<close> and not \<^verbatim>\<open>eofbit\<close>; in both cases it sets
  \<^verbatim>\<open>failbit\<close> too when it has read no character.
\<close>

definition getline :: "ifstream \<Rightarrow> string \<Rightarrow> ifstream \<times> string" where
  "getline fp line =
     (if eofbit fp \<or> failbit fp \<or> badbit fp then (fp\<lparr>failbit := True\<rparr>, line)
      else if NL \<in> set (unread fp)
      then (fp\<lparr>unread := tl (dropWhile (\<lambda>x. x \<noteq> NL) (unread fp))\<rparr>,
            takeWhile (\<lambda>x. x \<noteq> NL) (unread fp))
      else if error_follows fp
      then (fp\<lparr>unread := [], failbit := (unread fp = []), badbit := True\<rparr>, unread fp)
      else (fp\<lparr>unread := [], eofbit := True, failbit := (unread fp = [])\<rparr>, unread fp))"

text \<open>
  The variables of \<^verbatim>\<open>load\<close>. \<open>ld_cerr\<close> holds the diagnostics written to
  \<^verbatim>\<open>std::cerr\<close>, one entry for each \<^verbatim>\<open>std::endl\<close>.
\<close>

record load_state =
  ld_fp :: ifstream
  ld_line :: string
  ld_num_fields :: int
  ld_buffer :: "string list"
  ld_lines :: "Line list"
  ld_cerr :: "string list"

definition malformed :: "string \<Rightarrow> string" where
  "malformed l = ''malformed line: '' @ l"

text \<open>
  Lines 208 and 215-216: the record of a line, from its chunks, which are views into
  the line just buffered: the characters these views show now.
\<close>

definition parse_chunks :: "string list \<Rightarrow> Line" where
  "parse_chunks chunks =
     \<lparr>line_id = chunks ! 0,
      line_fields = map (\<lambda>chunk. string_split chunk CHR '' '') (tl chunks)\<rparr>"

text \<open>
  Lines 200-218: what the loop body does with a line that is not empty. The line is
  moved into the buffer, which leaves \<open>line\<close> empty. \<^verbatim>\<open>num_fields\<close> is a
  \<^verbatim>\<open>ssize_t\<close> that starts at \<open>-1\<close>; the cast \<^verbatim>\<open>(size_t)num_fields\<close> is only reached
  when it is not negative. In the source the \<^verbatim>\<open>emplace_back\<close> of line 200 can move
  the strings that the views of the records in \<open>ld_lines\<close> point into; the records of
  the model keep the characters they were parsed with, and only their sizes are
  claimed of the source once a later line has been buffered.
\<close>

definition accept_line :: "load_state \<Rightarrow> string \<Rightarrow> load_state" where
  "accept_line st l =
     (let st1 = st\<lparr>ld_buffer := ld_buffer st @ [l], ld_line := []\<rparr>;
          chunks = string_split l TAB
      in if length chunks \<le> 1 then st1\<lparr>ld_cerr := ld_cerr st1 @ [malformed l]\<rparr>
         else if ld_num_fields st1 < 0
         then st1\<lparr>ld_num_fields := int (length chunks) - 1,
                  ld_lines := ld_lines st1 @ [parse_chunks chunks]\<rparr>
         else if int (length chunks) - 1 \<noteq> ld_num_fields st1
         then st1\<lparr>ld_cerr := ld_cerr st1 @ [malformed l]\<rparr>
         else st1\<lparr>ld_lines := ld_lines st1 @ [parse_chunks chunks]\<rparr>)"

text \<open>Lines 197-218: one turn of the loop.\<close>

definition load_body :: "load_state \<Rightarrow> load_state" where
  "load_body st =
     (case getline (ld_fp st) (ld_line st) of
        (fp', line') \<Rightarrow>
          if line' = [] then st\<lparr>ld_fp := fp', ld_line := line'\<rparr>
          else accept_line (st\<lparr>ld_fp := fp', ld_line := line'\<rparr>) line')"

text \<open>
  Line 196: \<^verbatim>\<open>while (!fp.eof())\<close>. Nothing in the source bounds the number of turns,
  so the loop is a partial function: \<open>None\<close> when it never ends.
\<close>

partial_function (option) load_loop :: "load_state \<Rightarrow> load_state option" where
  "load_loop st = (if eofbit (ld_fp st) then Some st else load_loop (load_body st))"

declare load_loop.simps [code]

definition load_init :: "input_file \<Rightarrow> load_state" where
  "load_init file =
     \<lparr>ld_fp = ifstream_open file, ld_line = [], ld_num_fields = - 1,
      ld_buffer = [], ld_lines = [], ld_cerr = []\<rparr>"

text \<open>
  Lines 184-222. The pair that \<^verbatim>\<open>load\<close> returns is \<open>(ld_buffer, ld_lines)\<close> of the
  final state.
\<close>

definition load :: "input_file \<Rightarrow> load_state option" where
  "load file = load_loop (load_init file)"

section \<open>The progress bar (main.cpp, lines 37-102)\<close>

text \<open>
  Of \<^verbatim>\<open>Progbar\<close> the model keeps the two counters, both \<^verbatim>\<open>size_t\<close>, of 64 bits.
  What \<^verbatim>\<open>print\<close> draws depends on the clock and on floating point and is left out;
  what is kept is whether \<^verbatim>\<open>print\<close> gets as far as line 59,
  \<^verbatim>\<open>size_t length = current * LENGTH / total\<close>, an integer division that is
  undefined when \<open>total\<close> is \<open>0\<close>.
\<close>

record Progbar =
  pb_current :: "64 word"
  pb_total :: "64 word"

datatype fault = DivisionByZero

text \<open>Lines 46-87.\<close>

definition print :: "Progbar \<Rightarrow> fault + Progbar" where
  "print p =
     (let modulus = max 1 (pb_total p div 100000)
      in if pb_current p mod modulus \<noteq> 0 then Inr p
         else if pb_total p = 0 then Inl DivisionByZero
         else Inr p)"

text \<open>Lines 90-94: the constructor.\<close>

definition Progbar_new :: "64 word \<Rightarrow> fault + Progbar" where
  "Progbar_new t = print \<lparr>pb_current = 0, pb_total = t\<rparr>"

text \<open>Lines 96-101.\<close>

definition inc :: "Progbar \<Rightarrow> fault + Progbar" where
  "inc p =
     (if pb_current p \<ge> pb_total p then Inr p
      else print (p\<lparr>pb_current := pb_current p + 1\<rparr>))"

section \<open>Processing the pairs (main.cpp, lines 224-258)\<close>

text \<open>
  \<^verbatim>\<open>std::ofstream\<close>: the characters written so far; a stream whose file could not be
  created has \<^verbatim>\<open>failbit\<close> set and drops what is written to it.
\<close>

record ofstream =
  written :: string
  of_failbit :: bool

definition ofstream_open :: "bool \<Rightarrow> ofstream" where
  "ofstream_open creatable = \<lparr>written = [], of_failbit = \<not> creatable\<rparr>"

definition put :: "ofstream \<Rightarrow> string \<Rightarrow> ofstream" where
  "put fout s = (if of_failbit fout then fout else fout\<lparr>written := written fout @ s\<rparr>)"

text \<open>\<^verbatim>\<open>fout << ed\<close> for a \<^verbatim>\<open>size_t\<close>: the decimal digits.\<close>

function decimal :: "nat \<Rightarrow> string" where
  "decimal n =
     (if n < 10 then [char_of (48 + n)]
      else decimal (n div 10) @ [char_of (48 + n mod 10)])"
  by pat_completeness auto
termination
  by (relation "measure (\<lambda>n. n)") auto

declare decimal.simps [simp del]

text \<open>
  The state that \<^verbatim>\<open>run\<close> shares with \<^verbatim>\<open>process\<close>: the output stream and the
  progress bar. \<open>calls\<close> is not a variable of the program: it records, for the
  statements about the loops, the index pairs for which \<^verbatim>\<open>process\<close> was called.
\<close>

record run_state =
  fout :: ofstream
  progbar :: Progbar
  calls :: "(nat \<times> nat) list"

text \<open>Lines 229-232: the distances of the fields, in field order.\<close>

definition field_distances :: "Line \<Rightarrow> Line \<Rightarrow> nat list" where
  "field_distances one two =
     map (\<lambda>field. slow_edit_distance (line_fields one ! field) (line_fields two ! field))
       [0..<length (line_fields one)]"

text \<open>Lines 236-239: the line written for a pair.\<close>

definition result_line :: "Line \<Rightarrow> Line \<Rightarrow> string" where
  "result_line one two =
     line_id one @ [TAB] @ line_id two @
     concat (map (\<lambda>ed. TAB # decimal ed) (field_distances one two)) @ [NL]"

text \<open>
  Lines 226-242. Where the progress bar faults, the state reached is returned with the
  fault.
\<close>

definition process :: "run_state \<Rightarrow> Line \<Rightarrow> Line \<Rightarrow> (fault \<times> run_state) + run_state" where
  "process st one two =
     (let st1 = st\<lparr>fout := put (fout st) (result_line one two)\<rparr>
      in case inc (progbar st1) of
           Inl f \<Rightarrow> Inl (f, st1)
         | Inr p \<Rightarrow> Inr (st1\<lparr>progbar := p\<rparr>))"

text \<open>
  Lines 253-257. The loops are taken in the order of the source, which is the order of a
  build without OpenMP; with it the turns of the outer loop are divided among threads,
  each turn still run once.
\<close>

function inner_pairs :: "Line list \<Rightarrow> nat \<Rightarrow> nat \<Rightarrow> run_state \<Rightarrow> (fault \<times> run_state) + run_state" where
  "inner_pairs lines i j st =
     (if j < length lines
      then (case process (st\<lparr>calls := calls st @ [(i, j)]\<rparr>) (lines ! i) (lines ! j) of
              Inl e \<Rightarrow> Inl e
            | Inr st' \<Rightarrow> inner_pairs lines i (j + 1) st')
      else Inr st)"
  by pat_completeness auto
termination
  by (relation "measure (\<lambda>(lines, i, j, st). length lines - j)") auto

declare inner_pairs.simps [simp del]

function outer_pairs :: "Line list \<Rightarrow> nat \<Rightarrow> run_state \<Rightarrow> (fault \<times> run_state) + run_state" where
  "outer_pairs lines i st =
     (if i < length lines
      then (case inner_pairs lines i (i + 1) st of
              Inl e \<Rightarrow> Inl e
            | Inr st' \<Rightarrow> outer_pairs lines (i + 1) st')
      else Inr st)"
  by pat_completeness auto
termination
  by (relation "measure (\<lambda>(lines, i, st). length lines - i)") auto

declare outer_pairs.simps [simp del]

text \<open>
  Line 250: \<^verbatim>\<open>lines.size() * (lines.size()-1) / 2\<close>, in \<^verbatim>\<open>size_t\<close>: for no line the
  subtraction wraps to \<open>2^64 - 1\<close>.
\<close>

definition progress_total :: "nat \<Rightarrow> 64 word" where
  "progress_total n = (word_of_nat n * (word_of_nat n - 1)) div 2"

text \<open>
  Lines 248-258: \<^verbatim>\<open>run\<close> from the loaded store on. The store is given as
  \<^verbatim>\<open>process\<close> reads it: each view by the characters it shows then.
\<close>

definition run_store :: "Line list \<Rightarrow> bool \<Rightarrow> (fault \<times> run_state) + run_state" where
  "run_store lines creatable =
     (let st0 = \<lparr>fout = ofstream_open creatable,
                 progbar = \<lparr>pb_current = 0, pb_total = progress_total (length lines)\<rparr>,
                 calls = []\<rparr>
      in case Progbar_new (progress_total (length lines)) of
           Inl f \<Rightarrow> Inl (f, st0)
         | Inr p \<Rightarrow> outer_pairs lines 0 (st0\<lparr>progbar := p\<rparr>))"

text \<open>
  Lines 244-258. \<open>None\<close>: \<^verbatim>\<open>load\<close> does not return. Otherwise the diagnostics of
  \<^verbatim>\<open>load\<close> and the result of the rest. The records are handed on with the
  characters they were parsed with; what the source's views show by then is fixed only
  in their sizes, so of the output of a run through \<^verbatim>\<open>load\<close> nothing is stated below
  that depends on the characters of a record.
\<close>

definition run :: "input_file \<Rightarrow> bool \<Rightarrow> (string list \<times> ((fault \<times> run_state) + run_state)) option" where
  "run file creatable =
     (case load file of
        None \<Rightarrow> None
      | Some loaded \<Rightarrow> Some (ld_cerr loaded, run_store (ld_lines loaded) creatable))"

text \<open>The state a run ends in, with or without a fault.\<close>

definition final_state :: "(fault \<times> run_state) + run_state \<Rightarrow> run_state" where
  "final_state r = (case r of Inl (f, st) \<Rightarrow> st | Inr st \<Rightarrow> st)"

section \<open>The command line (main.cpp, lines 262-288)\<close>

text \<open>
  The files of the environment: what each file is as an input, and whether a file can
  be created.
\<close>

record env =
  env_readable :: "string \<Rightarrow> input_file"
  env_creatable :: "string \<Rightarrow> bool"

text \<open>
  How the process ends: with an exit status, or at a fault. \<open>stderr\<close> holds the
  diagnostics (not the drawing of the progress bar), \<open>outfile\<close> the output stream when
  one is opened.
\<close>

datatype ending = Exit int | Fault fault

record main_result =
  ending :: ending
  stderr :: "string list"
  outfile :: "ofstream option"

definition EXIT_SUCCESS :: int where
  "EXIT_SUCCESS = 0"

definition EXIT_FAILURE :: int where
  "EXIT_FAILURE = 1"

text \<open>Lines 262-266.\<close>

definition usage :: "string \<Rightarrow> string" where
  "usage argv0 = ''usage: '' @ argv0 @ '' <input file> <output file> [<field>]''"

text \<open>
  Lines 268-288; \<open>argc\<close> is the length of \<open>argv\<close>. \<^verbatim>\<open>PACKAGE_VERSION\<close> comes from
  \<^verbatim>\<open>all-pairs-edit-distance-config.h\<close>, which the build generates: it is a
  parameter. \<open>None\<close>: the process does not end.
\<close>

definition main :: "string \<Rightarrow> string list \<Rightarrow> env \<Rightarrow> main_result option" where
  "main PACKAGE_VERSION argv e =
     (if length argv < 3
      then Some \<lparr>ending = Exit EXIT_FAILURE, stderr = [usage (argv ! 0)], outfile = None\<rparr>
      else if ''--help'' = argv ! 1 \<or> ''--help'' = argv ! 2
      then Some \<lparr>ending = Exit EXIT_SUCCESS, stderr = [usage (argv ! 0)], outfile = None\<rparr>
      else if ''--version'' = argv ! 1 \<or> ''--version'' = argv ! 2
      then Some \<lparr>ending = Exit EXIT_SUCCESS,
                 stderr = [argv ! 0 @ '' '' @ PACKAGE_VERSION], outfile = None\<rparr>
      else (case run (env_readable e (argv ! 1)) (env_creatable e (argv ! 2)) of
              None \<Rightarrow> None
            | Some (diagnostics, Inl (f, st)) \<Rightarrow>
                Some \<lparr>ending = Fault f, stderr = diagnostics, outfile = Some (fout st)\<rparr>
            | Some (diagnostics, Inr st) \<Rightarrow>
                Some \<lparr>ending = Exit EXIT_SUCCESS, stderr = diagnostics,
                      outfile = Some (fout st)\<rparr>))"

section \<open>Notions used in the statements\<close>

text \<open>
  The lines of a file that are not blank: the segments between newlines, without the
  empty ones. The chunk count of a line: the number of pieces \<open>string_split\<close> returns
  for it at the tab.
\<close>

definition nonblank_lines :: "string \<Rightarrow> string list" where
  "nonblank_lines content = filter (\<lambda>l. l \<noteq> []) (segments NL content)"

definition chunk_count :: "string \<Rightarrow> nat" where
  "chunk_count l = length (string_split l TAB)"

text \<open>
  The lines \<^verbatim>\<open>load\<close> drops: every line that is not blank when no line has two chunks
  or more, and else the lines whose chunk count is not that of the first line with two
  chunks or more.
\<close>

definition dropped_lines :: "string \<Rightarrow> string list" where
  "dropped_lines content =
     (case List.find (\<lambda>l. 2 \<le> chunk_count l) (nonblank_lines content) of
        None \<Rightarrow> nonblank_lines content
      | Some first \<Rightarrow>
          filter (\<lambda>l. chunk_count l \<noteq> chunk_count first) (nonblank_lines content))"

text \<open>The record \<^verbatim>\<open>load\<close> builds for a line it keeps, as parsed.\<close>

definition parse_line :: "string \<Rightarrow> Line" where
  "parse_line l = parse_chunks (string_split l TAB)"

text \<open>
  A stream that is not good and not at its end, with the line variable empty, in the
  loop of \<^verbatim>\<open>load\<close>.
\<close>

definition stuck :: "load_state \<Rightarrow> bool" where
  "stuck st \<longleftrightarrow>
     (failbit (ld_fp st) \<or> badbit (ld_fp st)) \<and> \<not> eofbit (ld_fp st) \<and> ld_line st = []"

text \<open>The stream when \<^verbatim>\<open>load\<close> has read, to its end, a file that opened.\<close>

definition finished :: "string \<Rightarrow> ifstream" where
  "finished content =
     \<lparr>unread = [], error_follows = False, eofbit = True,
      failbit = (last (segments NL content) = []), badbit = False\<rparr>"

text \<open>An environment in which no file can be opened for reading.\<close>

definition unreadable_env :: env where
  "unreadable_env =
     \<lparr>env_readable = (\<lambda>name. Unopenable), env_creatable = (\<lambda>name. True)\<rparr>"

text \<open>
  A file of five lines: a record of one field, a line of one chunk, a blank line, a line
  of three chunks and, with no newline after it, a second record of one field.
\<close>

definition mixed_file :: string where
  "mixed_file =
     ''a'' @ [TAB] @ ''x y'' @ [NL] @ ''b'' @ [NL, NL] @
     ''c'' @ [TAB] @ ''z'' @ [TAB] @ ''d'' @ [NL] @ ''e'' @ [TAB] @ ''f''"

text \<open>
  The index pairs \<open>(a, b)\<close> with \<open>i \<le> a\<close> and \<open>a < b < n\<close>, by rising \<open>a\<close>, then rising
  \<open>b\<close>; from \<open>i = 0\<close>, all the pairs of distinct indices below \<open>n\<close>, the smaller index
  first.
\<close>

definition pairs_from :: "nat \<Rightarrow> nat \<Rightarrow> (nat \<times> nat) list" where
  "pairs_from i n = concat (map (\<lambda>a. map (Pair a) [Suc a..<n]) [i..<n])"





text \<open>A file of one record, and a store of three records of one field.\<close>

definition single_file :: string where
  "single_file = ''a'' @ [TAB] @ ''x''"

definition three_records :: "Line list" where
  "three_records =
     [\<lparr>line_id = ''r0'', line_fields = [[''x'', ''y'']]\<rparr>,
      \<lparr>line_id = ''r1'', line_fields = [[''x'']]\<rparr>,
      \<lparr>line_id = ''r2'', line_fields = [[''y'', ''x'']]\<rparr>]"

section \<open>Correctness of the distance kernel\<close>

subsection \<open>The table holds the recurrence\<close>

lemma cell_index_lt:
  "i \<le> len1 \<Longrightarrow> j \<le> len2 \<Longrightarrow> i * (len2 + 1) + j < (len1 + 1) * (len2 + (1::nat))"
proof -
  assume a: "i \<le> len1" "j \<le> len2"
  have "i * (len2 + 1) + j < (i + 1) * (len2 + 1)" using a by simp
  also have "\<dots> \<le> (len1 + 1) * (len2 + 1)" using a by (intro mult_le_mono1) simp
  finally show ?thesis .
qed

lemma cell_index_inj:
  assumes "j \<le> len2" "j' \<le> len2" "i * (len2 + 1) + j = i' * (len2 + 1) + (j'::nat)"
  shows "i = i' \<and> j = j'"
proof -
  define c where "c = len2 + 1"
  have lt: "j < c" "j' < c" using assms(1,2) by (simp_all add: c_def)
  have eq: "i * c + j = i' * c + j'" using assms(3) by (simp add: c_def)
  have "(i * c + j) div c = i" "(i * c + j) mod c = j" using lt by simp_all
  moreover have "(i' * c + j') div c = i'" "(i' * c + j') mod c = j'" using lt by simp_all
  ultimately show ?thesis using eq by metis
qed

lemma at_assign_same:
  "table_ok m len1 len2 \<Longrightarrow> i \<le> len1 \<Longrightarrow> j \<le> len2 \<Longrightarrow> at (at_assign m i j v) i j = v"
  using cell_index_lt [of i len1 j len2] by (simp add: at_def at_assign_def table_ok_def)

lemma at_assign_other:
  assumes "table_ok m len1 len2" "j \<le> len2" "j' \<le> len2" "(i', j') \<noteq> (i, j)"
  shows "at (at_assign m i j v) i' j' = at m i' j'"
proof -
  have "i * (len2 + 1) + j \<noteq> i' * (len2 + 1) + j'"
    using cell_index_inj [OF assms(2,3), of i i'] assms(4) by blast
  then show ?thesis using assms(1) by (simp add: at_def at_assign_def table_ok_def)
qed

lemma table_ok_at_assign [simp]: "table_ok (at_assign m i j v) len1 len2 = table_ok m len1 len2"
  by (simp add: table_ok_def at_assign_def)

lemma filled_step:
  assumes ok: "table_ok m len1 len2" and f: "filled one two m len2 i j"
    and i: "i \<le> len1" and j: "j \<le> len2" and v: "v = cell one two i j"
  shows "filled one two (at_assign m i j v) len2 i (Suc j)"
  unfolding filled_def
proof (intro allI impI)
  fix i' j' assume h: "j' \<le> len2 \<and> (i' < i \<or> i' = i \<and> j' < Suc j)"
  show "at (at_assign m i j v) i' j' = cell one two i' j'"
  proof (cases "(i', j') = (i, j)")
    case True
    then show ?thesis using at_assign_same [OF ok i j] v by simp
  next
    case False
    then have "at (at_assign m i j v) i' j' = at m i' j'"
      using at_assign_other [OF ok j, of j' i' i v] h by simp
    moreover have "i' < i \<or> i' = i \<and> j' < j" using h False by auto
    ultimately show ?thesis using f h by (simp add: filled_def)
  qed
qed

lemma filled_next_row:
  assumes "filled one two m len2 i (Suc len2)"
  shows "filled one two m len2 (Suc i) 0"
  unfolding filled_def
proof (intro allI impI)
  fix i' j'
  assume "j' \<le> len2 \<and> (i' < Suc i \<or> i' = Suc i \<and> j' < 0)"
  then have "j' \<le> len2 \<and> (i' < i \<or> i' = i \<and> j' < Suc len2)" by arith
  then show "at m i' j' = cell one two i' j'" using assms unfolding filled_def by blast
qed

lemma row0_loop_filled:
  "table_ok m len1 len2 \<Longrightarrow> filled one two m len2 0 j \<Longrightarrow> j \<le> Suc len2 \<Longrightarrow>
   table_ok (row0_loop len2 j m) len1 len2 \<and> filled one two (row0_loop len2 j m) len2 0 (Suc len2)"
proof (induction len2 j m rule: row0_loop.induct)
  case (1 len2 j matrix)
  show ?case
  proof (cases "j \<le> len2")
    case True
    have "filled one two (at_assign matrix 0 j j) len2 0 (Suc j)"
      using filled_step [OF "1.prems"(1,2) _ True, of j] by simp
    then show ?thesis using "1.IH" [OF True] "1.prems" True
      by (subst (1 2) row0_loop.simps) simp
  next
    case False
    then have "j = Suc len2" using "1.prems" by simp
    then show ?thesis using "1.prems" by (subst (1 2) row0_loop.simps) simp
  qed
qed

lemma cell_value_cell:
  assumes f: "filled one two m len2 i j" and i: "0 < i" and j: "0 < j" "j \<le> len2"
  shows "cell_value one two m i j = cell one two i j"
proof -
  obtain i0 j0 where ij: "i = Suc i0" "j = Suc j0" using i j by (cases i; cases j) auto
  have "at m i0 j0 = cell one two i0 j0" "at m i0 j = cell one two i0 j"
       "at m i j0 = cell one two i j0"
    using f j ij by (auto simp add: filled_def)
  then show ?thesis by (simp add: cell_value_def ij)
qed

lemma inner_loop_filled:
  "table_ok m len1 len2 \<Longrightarrow> filled one two m len2 i j \<Longrightarrow> 0 < i \<Longrightarrow> i \<le> len1 \<Longrightarrow> 0 < j \<Longrightarrow>
   j \<le> Suc len2 \<Longrightarrow>
   table_ok (inner_loop one two len2 i j m) len1 len2 \<and>
   filled one two (inner_loop one two len2 i j m) len2 i (Suc len2)"
proof (induction one two len2 i j m rule: inner_loop.induct)
  case (1 one two len2 i j matrix)
  show ?case
  proof (cases "j \<le> len2")
    case True
    have "filled one two (at_assign matrix i j (cell_value one two matrix i j)) len2 i (Suc j)"
      using filled_step [OF "1.prems"(1,2,4) True] cell_value_cell [OF "1.prems"(2,3,5) True]
      by simp
    then show ?thesis using "1.IH" [OF True] "1.prems" True
      by (subst (1 2) inner_loop.simps) simp
  next
    case False
    then have "j = Suc len2" using "1.prems" by simp
    then show ?thesis using "1.prems" by (subst (1 2) inner_loop.simps) simp
  qed
qed

lemma outer_loop_filled:
  "table_ok m len1 len2 \<Longrightarrow> filled one two m len2 i 0 \<Longrightarrow> 0 < i \<Longrightarrow> i \<le> Suc len1 \<Longrightarrow>
   filled one two (outer_loop one two len1 len2 i m) len2 (Suc len1) 0"
proof (induction one two len1 len2 i m rule: outer_loop.induct)
  case (1 one two len1 len2 i matrix)
  show ?case
  proof (cases "i \<le> len1")
    case True
    have c: "cell one two i 0 = i" using "1.prems"(3) by (cases i) simp_all
    have "filled one two (at_assign matrix i 0 i) len2 i (Suc 0)"
      using filled_step [OF "1.prems"(1,2) True, of i] c by simp
    then have "table_ok (inner_loop one two len2 i 1 (at_assign matrix i 0 i)) len1 len2 \<and>
        filled one two (inner_loop one two len2 i 1 (at_assign matrix i 0 i)) len2 i (Suc len2)"
      using inner_loop_filled [of "at_assign matrix i 0 i" len1 len2 one two i 1] "1.prems" True
      by simp
    then have "table_ok (inner_loop one two len2 i 1 (at_assign matrix i 0 i)) len1 len2"
      and "filled one two (inner_loop one two len2 i 1 (at_assign matrix i 0 i)) len2 (Suc i) 0"
      using filled_next_row by blast+
    then have "filled one two (outer_loop one two len1 len2 (i + 1)
        (inner_loop one two len2 i 1 (at_assign matrix i 0 i))) len2 (Suc len1) 0"
      using "1.IH" [OF True] True by simp
    then show ?thesis using True by (subst outer_loop.simps) simp
  next
    case False
    then have "i = Suc len1" using "1.prems" by simp
    then show ?thesis using "1.prems" by (subst outer_loop.simps) simp
  qed
qed

lemma table_any_start:
  assumes "table_ok m len1 len2"
  shows "at (fill_table one two len1 len2 m) len1 len2 = cell one two len1 len2"
proof -
  have "filled one two (at_assign m 0 0 0) len2 0 (Suc 0)"
    using filled_step [OF assms, of one two 0 0 0] by (simp add: filled_def)
  then have "table_ok (row0_loop len2 1 (at_assign m 0 0 0)) len1 len2 \<and>
      filled one two (row0_loop len2 1 (at_assign m 0 0 0)) len2 0 (Suc len2)"
    using row0_loop_filled [of "at_assign m 0 0 0" len1 len2 one two 1] assms by simp
  then have "table_ok (row0_loop len2 1 (at_assign m 0 0 0)) len1 len2"
    and "filled one two (row0_loop len2 1 (at_assign m 0 0 0)) len2 (Suc 0) 0"
    using filled_next_row by blast+
  then have "filled one two (fill_table one two len1 len2 m) len2 (Suc len1) 0"
    unfolding fill_table_def using outer_loop_filled [of _ len1 len2 one two 1]
    by simp
  then show ?thesis by (simp add: filled_def)
qed

lemma table_distance_cell: "table_distance one two len1 len2 = cell one two len1 len2"
  unfolding table_distance_def
  by (rule table_any_start) (simp add: table_ok_def Matrix_new_def)

subsection \<open>The recurrence is the minimum number of edits\<close>

lemma lev_Nil2: "lev xs [] = length xs"
  by (cases xs) simp_all

lemma lev_sym: "lev xs ys = lev ys xs"
  by (induction xs ys rule: lev.induct) (simp_all add: lev_Nil2 min.commute min.left_commute)

lemma lev_same: "lev xs xs = 0"
  by (induction xs) simp_all

lemma lev_cons_bounds:
  "lev xs ys \<le> Suc (lev (a # xs) ys) \<and> lev (a # xs) ys \<le> Suc (lev xs ys)"
proof (induction "length xs + length ys" arbitrary: xs ys a rule: less_induct)
  case less
  show ?case
  proof (cases ys)
    case Nil
    then show ?thesis by (simp add: lev_Nil2)
  next
    case (Cons b ys')
    have ih1: "lev xs ys' \<le> Suc (lev (a # xs) ys')"
      using less [of xs ys' a] Cons by simp
    have "lev ys' xs \<le> Suc (lev (b # ys') xs) \<and> lev (b # ys') xs \<le> Suc (lev ys' xs)"
      using less [of ys' xs b] Cons by simp
    then have ih2: "lev xs ys' \<le> Suc (lev xs (b # ys'))" "lev xs (b # ys') \<le> Suc (lev xs ys')"
      using lev_sym [of ys' xs] lev_sym [of "b # ys'" xs] by simp_all
    show ?thesis using ih1 ih2 Cons by (simp add: min_def)
  qed
qed

lemma lev_context:
  assumes "\<And>ys. lev u ys \<le> Suc (lev v ys)"
  shows "lev (c # u) ys \<le> Suc (lev (c # v) ys)"
proof (induction ys)
  case Nil
  then show ?case using assms [of "[]"] by (simp add: lev_Nil2)
next
  case (Cons d ys')
  then show ?case using assms [of ys'] assms [of "d # ys'"] by (simp add: min_def)
qed

lemma lev_substitution: "lev (a # s) ys \<le> Suc (lev (b # s) ys)"
proof (induction ys)
  case Nil
  then show ?case by simp
next
  case (Cons d ys')
  have "lev s ys' \<le> Suc (lev (b # s) ys')" using lev_cons_bounds [of s ys' b] by simp
  moreover have "lev s ys' \<le> Suc (lev s (d # ys'))"
    using lev_cons_bounds [of ys' s d] lev_sym [of ys' s] lev_sym [of "d # ys'" s] by simp
  ultimately show ?case using Cons by (simp add: min_def)
qed

lemma lev_edit1: "edit1 xs z \<Longrightarrow> lev xs ys \<le> Suc (lev z ys)"
proof (induction arbitrary: ys rule: edit1.induct)
  case (insertion p s a)
  then show ?case
    by (induction p arbitrary: ys) (simp_all add: lev_cons_bounds lev_context)
next
  case (deletion p a s)
  then show ?case
    by (induction p arbitrary: ys) (simp_all add: lev_cons_bounds lev_context)
next
  case (substitution p a s b)
  then show ?case
    by (induction p arbitrary: ys) (simp_all add: lev_substitution lev_context)
qed

lemma lev_lower: "(edit1 ^^ n) xs ys \<Longrightarrow> lev xs ys \<le> n"
proof (induction n arbitrary: xs)
  case 0
  then show ?case by (simp add: lev_same)
next
  case (Suc n)
  then obtain z where "edit1 xs z" "(edit1 ^^ n) z ys"
    using relpowp_Suc_D2 [of n edit1 xs ys] by blast
  then show ?case using Suc.IH [of z] lev_edit1 [of xs z ys] by simp
qed

lemma edit1_Cons: "edit1 xs ys \<Longrightarrow> edit1 (a # xs) (a # ys)"
proof (induction rule: edit1.induct)
  case (insertion p s b)
  show ?case using edit1.insertion [of "a # p" s b] by simp
next
  case (deletion p b s)
  show ?case using edit1.deletion [of "a # p" b s] by simp
next
  case (substitution p b s c)
  show ?case using edit1.substitution [of "a # p" b s c] by simp
qed

lemma edits_Cons: "(edit1 ^^ n) xs ys \<Longrightarrow> (edit1 ^^ n) (a # xs) (a # ys)"
proof (induction n arbitrary: ys)
  case 0
  then show ?case by simp
next
  case (Suc n)
  then obtain z where "(edit1 ^^ n) xs z" "edit1 z ys" by auto
  then show ?case using Suc.IH [of z] edit1_Cons [of z ys a] by auto
qed

lemma edit1_insert_head: "edit1 xs (a # xs)"
  using edit1.insertion [of "[]" xs a] by simp

lemma edit1_delete_head: "edit1 (a # xs) xs"
  using edit1.deletion [of "[]" a xs] by simp

lemma edit1_substitute_head: "edit1 (a # xs) (b # xs)"
  using edit1.substitution [of "[]" a xs b] by simp

lemma edits_insert_all: "(edit1 ^^ length ys) [] ys"
proof (induction ys)
  case Nil
  then show ?case by simp
next
  case (Cons y ys)
  have "edit1 [] [y]" by (rule edit1_insert_head)
  moreover have "(edit1 ^^ length ys) [y] (y # ys)" using Cons by (rule edits_Cons)
  ultimately have "(edit1 ^^ Suc (length ys)) [] (y # ys)" by (rule relpowp_Suc_I2)
  then show ?case by simp
qed

lemma edits_delete_all: "(edit1 ^^ length xs) xs []"
proof (induction xs)
  case Nil
  then show ?case by simp
next
  case (Cons x xs)
  have "edit1 (x # xs) xs" by (rule edit1_delete_head)
  then have "(edit1 ^^ Suc (length xs)) (x # xs) []" using Cons by (rule relpowp_Suc_I2)
  then show ?case by simp
qed

lemma lev_upper: "(edit1 ^^ lev xs ys) xs ys"
proof (induction xs ys rule: lev.induct)
  case (1 ys)
  then show ?case by (simp add: edits_insert_all)
next
  case (2 x xs)
  then show ?case using edits_delete_all [of "x # xs"] by simp
next
  case (3 x xs y ys)
  show ?case
  proof (cases "x = y")
    case True
    then show ?thesis using 3 by (simp add: edits_Cons)
  next
    case False
    let ?m = "min (lev xs ys) (min (lev xs (y # ys)) (lev (x # xs) ys))"
    have sub: "(edit1 ^^ Suc (lev xs ys)) (x # xs) (y # ys)"
      using edit1_substitute_head [of x xs y] edits_Cons [OF "3.IH"(2) [OF False], of y]
      by (rule relpowp_Suc_I2)
    have del: "(edit1 ^^ Suc (lev xs (y # ys))) (x # xs) (y # ys)"
      using edit1_delete_head [of x xs] "3.IH"(3) [OF False]
      by (rule relpowp_Suc_I2)
    have ins: "(edit1 ^^ Suc (lev (x # xs) ys)) (x # xs) (y # ys)"
      using edit1_insert_head [of "x # xs" y] edits_Cons [OF "3.IH"(4) [OF False], of y]
      by (rule relpowp_Suc_I2)
    have "?m = lev xs ys \<or> ?m = lev xs (y # ys) \<or> ?m = lev (x # xs) ys"
      by (auto simp add: min_def)
    then have "(edit1 ^^ Suc ?m) (x # xs) (y # ys)" using sub del ins by metis
    then show ?thesis using False by simp
  qed
qed

lemma edit1_rev: "edit1 xs ys \<Longrightarrow> edit1 (rev xs) (rev ys)"
proof (induction rule: edit1.induct)
  case (insertion p s a)
  show ?case using edit1.insertion [of "rev s" "rev p" a] by simp
next
  case (deletion p a s)
  show ?case using edit1.deletion [of "rev s" a "rev p"] by simp
next
  case (substitution p a s b)
  show ?case using edit1.substitution [of "rev s" a "rev p" b] by simp
qed

lemma edits_rev: "(edit1 ^^ n) xs ys \<Longrightarrow> (edit1 ^^ n) (rev xs) (rev ys)"
proof (induction n arbitrary: ys)
  case 0
  then show ?case by simp
next
  case (Suc n)
  then obtain z where "(edit1 ^^ n) xs z" "edit1 z ys" by auto
  then show ?case using Suc.IH [of z] edit1_rev [of z ys] by auto
qed

lemma cell_lev:
  "i \<le> length one \<Longrightarrow> j \<le> length two \<Longrightarrow>
   cell one two i j = lev (rev (take i one)) (rev (take j two))"
proof (induction one two i j rule: cell.induct)
  case (1 one two j)
  then show ?case by simp
next
  case (2 one two i)
  then show ?case by (simp add: lev_Nil2)
next
  case (3 one two i j)
  then show ?case by (simp add: take_Suc_conv_app_nth)
qed

lemma strip_suffix_cell:
  "strip_suffix one two len1 len2 = (l1, l2) \<Longrightarrow> cell one two l1 l2 = cell one two len1 len2"
proof (induction one two len1 len2 rule: strip_suffix.induct)
  case (1 one two len1 len2)
  show ?case
  proof (cases "len1 > 0 \<and> len2 > 0 \<and> one ! (len1 - 1) = two ! (len2 - 1)")
    case True
    then obtain i j where ij: "len1 = Suc i" "len2 = Suc j" by (cases len1; cases len2) auto
    have "strip_suffix one two (len1 - 1) (len2 - 1) = (l1, l2)"
      using "1.prems" True by (subst (asm) strip_suffix.simps) simp
    then have "cell one two l1 l2 = cell one two (len1 - 1) (len2 - 1)"
      using "1.IH" [OF True] by simp
    then show ?thesis using True ij by simp
  next
    case False
    then show ?thesis using "1.prems" by (subst (asm) strip_suffix.simps) auto
  qed
qed

lemma cell_0_right: "cell one two i 0 = i"
  by (cases i) simp_all


lemma slow_edit_distance_cell:
  "slow_edit_distance one two = cell one two (length one) (length two)"
proof -
  obtain l1 l2 where s: "strip_suffix one two (length one) (length two) = (l1, l2)"
    by (cases "strip_suffix one two (length one) (length two)")
  have "slow_edit_distance one two = cell one two l1 l2"
    using s by (simp add: slow_edit_distance_def table_distance_cell cell_0_right)
  then show ?thesis using strip_suffix_cell [OF s] by simp
qed

lemma slow_edit_distance_lev: "slow_edit_distance one two = lev (rev one) (rev two)"
  by (simp add: slow_edit_distance_cell cell_lev)

text \<open>
  Claim C1. For all token sequences \<open>A\<close> and \<open>B\<close>, \<open>slow_edit_distance A B\<close> is a
  natural number, and it is the minimum number of single-token insertions, deletions
  and substitutions that transform \<open>A\<close> into \<open>B\<close>: that many edits do transform
  \<open>A\<close> into \<open>B\<close>, and no smaller number of edits does.
\<close>

theorem slow_edit_distance_minimal:
  "(edit1 ^^ slow_edit_distance A B) A B \<and>
   (\<forall>n. (edit1 ^^ n) A B \<longrightarrow> slow_edit_distance A B \<le> n)"
proof
  show "(edit1 ^^ slow_edit_distance A B) A B"
    using edits_rev [OF lev_upper [of "rev A" "rev B"]] by (simp add: slow_edit_distance_lev)
  show "\<forall>n. (edit1 ^^ n) A B \<longrightarrow> slow_edit_distance A B \<le> n"
    using lev_lower [OF edits_rev] by (auto simp add: slow_edit_distance_lev)
qed

theorem slow_edit_distance_minimal_witness:
  "(edit1 ^^ 1) [''hello'', ''world''] [''hallo'', ''world''] \<and>
   slow_edit_distance [''hello'', ''world''] [''hallo'', ''world''] \<le> 1"
proof -
  have "edit1 ([] @ ''hello'' # [''world'']) ([] @ ''hallo'' # [''world''])"
    by (rule edit1.substitution)
  then have h: "(edit1 ^^ 1) [''hello'', ''world''] [''hallo'', ''world'']" by auto
  have "slow_edit_distance [''hello'', ''world''] [''hallo'', ''world''] \<le> 1"
    by (rule slow_edit_distance_minimal [THEN conjunct2, THEN spec, THEN mp, OF h])
  then show ?thesis using h by simp
qed

text \<open>
  Claim C7. For all token sequences \<open>A\<close> and \<open>B\<close>, \<open>slow_edit_distance A B\<close> equals
  the plain dynamic-programming computation on the \<open>(len_a + 1) \<times> (len_b + 1)\<close> table
  without the stripping of the common suffix: the stripping never changes the distance
  returned.
\<close>

theorem slow_edit_distance_plain: "slow_edit_distance A B = plain_edit_distance A B"
  by (simp add: slow_edit_distance_cell plain_edit_distance_def table_distance_cell)

section \<open>What string_split returns\<close>

lemma segments_not_Nil [simp]: "segments c xs \<noteq> []"
  by (induction xs) simp_all

lemma segments_no_separator: "c \<notin> set xs \<Longrightarrow> segments c xs = [xs]"
  by (induction xs) auto

lemma segments_append: "c \<notin> set s \<Longrightarrow> segments c (s @ c # rest) = s # segments c rest"
  by (induction s) auto

lemma string_find_None:
  "string_find from c pos = None \<Longrightarrow> c \<notin> set (drop pos from)"
proof (induction "from" c pos rule: string_find.induct)
  case (1 "from" c pos)
  show ?case
  proof (cases "pos < length from")
    case True
    then have ne: "from ! pos \<noteq> c" and r: "string_find from c (pos + 1) = None"
      using "1.prems" by (subst (asm) string_find.simps, simp split: if_splits)+
    have "c \<notin> set (drop (pos + 1) from)" using "1.IH" [OF True ne r] .
    then show ?thesis using ne True by (simp add: Cons_nth_drop_Suc [symmetric])
  next
    case False
    then show ?thesis by simp
  qed
qed

lemma string_find_Some:
  "string_find from c pos = Some n \<Longrightarrow>
   pos \<le> n \<and> n < length from \<and> from ! n = c \<and> c \<notin> set (take (n - pos) (drop pos from))"
proof (induction "from" c pos rule: string_find.induct)
  case (1 "from" c pos)
  have lt: "pos < length from"
    using "1.prems" by (subst (asm) string_find.simps) (simp split: if_splits)
  show ?case
  proof (cases "from ! pos = c")
    case True
    then have "n = pos" using "1.prems" lt by (subst (asm) string_find.simps) simp
    then show ?thesis using True lt by simp
  next
    case False
    then have r: "string_find from c (pos + 1) = Some n"
      using "1.prems" lt by (subst (asm) string_find.simps) simp
    have ih: "pos + 1 \<le> n \<and> n < length from \<and> from ! n = c \<and>
        c \<notin> set (take (n - (pos + 1)) (drop (pos + 1) from))"
      using "1.IH" [OF lt False r] .
    then have "n - pos = Suc (n - (pos + 1))" by arith
    then have "take (n - pos) (drop pos from) =
        from ! pos # take (n - (pos + 1)) (drop (pos + 1) from)"
      using lt by (simp add: Cons_nth_drop_Suc [symmetric])
    then show ?thesis using ih False by auto
  qed
qed

lemma drop_at_separator:
  assumes "pos \<le> n" "n < length from" "from ! n = c"
  shows "drop pos from = take (n - pos) (drop pos from) @ c # drop (n + 1) from"
proof -
  have "drop (n - pos) (drop pos from) = drop n from" using assms(1) by simp
  also have "\<dots> = c # drop (n + 1) from"
    using assms(2,3) Cons_nth_drop_Suc [of n "from"] by simp
  finally show ?thesis by (metis append_take_drop_id)
qed

lemma split_loop_segments:
  "next = string_find from c current \<Longrightarrow> current \<le> length from \<Longrightarrow>
   split_loop from c current next output = (cur', out') \<Longrightarrow>
   cur' \<le> length from \<and>
   out' = output @ butlast (segments c (drop current from)) \<and>
   drop cur' from = last (segments c (drop current from))"
proof (induction "from" c current "next" "output" rule: split_loop.induct)
  case (1 "from" c current "next" out)
  show ?case
  proof (cases "next")
    case None
    then have "c \<notin> set (drop current from)" using "1.prems"(1) string_find_None by metis
    then have "segments c (drop current from) = [drop current from]"
      by (rule segments_no_separator)
    moreover have "cur' = current" "out' = out"
      using "1.prems"(3) None by (subst (asm) split_loop.simps, simp)+
    ultimately show ?thesis using "1.prems"(2) by simp
  next
    case (Some n)
    then have f: "current \<le> n \<and> n < length from \<and> from ! n = c \<and>
        c \<notin> set (take (n - current) (drop current from))"
      using "1.prems"(1) string_find_Some by metis
    let ?seg = "take (n - current) (drop current from)"
    have "drop current from = ?seg @ c # drop (n + 1) from"
      using f by (intro drop_at_separator) simp_all
    then have "segments c (drop current from) = segments c (?seg @ c # drop (n + 1) from)"
      by simp
    then have s: "segments c (drop current from) = ?seg # segments c (drop (n + 1) from)"
      using f segments_append by metis
    have "split_loop from c (n + 1) (string_find from c (n + 1)) (out @ [?seg]) = (cur', out')"
      using "1.prems"(3) Some by (subst (asm) split_loop.simps) simp
    then have "cur' \<le> length from \<and>
        out' = (out @ [?seg]) @ butlast (segments c (drop (n + 1) from)) \<and>
        drop cur' from = last (segments c (drop (n + 1) from))"
      using "1.IH" [OF Some refl] f by simp
    then show ?thesis using s by simp
  qed
qed

lemma string_split_segments:
  "string_split from c =
     (if last (segments c from) = [] then butlast (segments c from) else segments c from)"
proof -
  obtain cur' out' where l: "split_loop from c 0 (string_find from c 0) [] = (cur', out')"
    by (cases "split_loop from c 0 (string_find from c 0) []")
  have r: "cur' \<le> length from \<and> out' = [] @ butlast (segments c (drop 0 from)) \<and>
      drop cur' from = last (segments c (drop 0 from))"
    using split_loop_segments [OF refl _ l] by simp
  then have d: "drop cur' from = last (segments c from)" and o: "out' = butlast (segments c from)"
    and le: "cur' \<le> length from"
    by simp_all
  have e: "(cur' = length from) = (last (segments c from) = [])" using d le by auto
  have "take (length from - cur') (drop cur' from) = drop cur' from" by simp
  then have t: "take (length from - cur') (drop cur' from) = last (segments c from)"
    using d by simp
  have full: "butlast (segments c from) @ [last (segments c from)] = segments c from"
    by simp
  have "string_split from c =
      (if cur' \<noteq> length from then out' @ [take (length from - cur') (drop cur' from)] else out')"
    using l by (simp add: string_split_def)
  also have "\<dots> = (if last (segments c from) = [] then butlast (segments c from)
      else segments c from)"
    unfolding t o e using full by simp
  finally show ?thesis .
qed

lemma segments_snoc:
  "segments c (xs @ [x]) =
     (if x = c then segments c xs @ [[]]
      else butlast (segments c xs) @ [last (segments c xs) @ [x]])"
proof (induction xs)
  case Nil
  then show ?case by simp
next
  case (Cons a xs)
  obtain s ss where S: "segments c xs = s # ss"
    using segments_not_Nil [of c xs] by (cases "segments c xs") auto
  obtain t ts where T: "segments c (xs @ [x]) = t # ts"
    using segments_not_Nil [of c "xs @ [x]"] by (cases "segments c (xs @ [x])") auto
  show ?case using Cons S T by (cases ss) (auto split: if_splits)
qed

lemma last_segments_empty: "last (segments c xs) = [] \<longleftrightarrow> xs = [] \<or> last xs = c"
  by (cases xs rule: rev_cases) (simp_all add: segments_snoc)

text \<open>
  Claim C9, as amended. For every string and separator, \<open>string_split\<close> returns the
  segments of the string, all of them but for the segment after the final separator
  when that one is empty, which is when the string is empty or ends with the separator.
  So the empty string splits into no token and \<open>''a ''\<close> at a space into \<open>[''a'']\<close>. An
  empty token is produced between two adjacent separators wherever they stand, also at
  the end of the string: \<open>''a  b''\<close> gives \<open>[''a'', '''', ''b'']\<close> and \<open>''a  ''\<close> gives
  \<open>[''a'', '''']\<close>, so the last token returned can be empty.
\<close>

theorem string_split_drops_final_empty_segment:
  "string_split from c =
     (if from = [] \<or> last from = c then butlast (segments c from) else segments c from) \<and>
   string_split [] c = [] \<and>
   string_split ''a '' CHR '' '' = [''a''] \<and>
   string_split ''a  b'' CHR '' '' = [''a'', '''', ''b''] \<and>
   string_split ''a  '' CHR '' '' = [''a'', '''']"
proof -
  have g: "string_split s d =
      (if s = [] \<or> last s = d then butlast (segments d s) else segments d s)" for s d
    using string_split_segments [of s d] last_segments_empty [of d s] by simp
  show ?thesis by (simp add: g)
qed

text \<open>
  Claim C9 as stated says that no trailing empty token is ever returned. Splitting
  \<open>''a  ''\<close> at a space returns \<open>[''a'', '''']\<close>, whose last token is empty.
\<close>

theorem string_split_trailing_empty_counterexample:
  "string_split ''a  '' CHR '' '' = [''a'', ''''] \<and> last (string_split ''a  '' CHR '' '') = ''''"
  by (simp add: string_split_segments)

section \<open>What load returns\<close>

subsection \<open>The loop reads the lines of the file\<close>

lemma accept_line_fp: "accept_line (st\<lparr>ld_fp := f\<rparr>) l = (accept_line st l)\<lparr>ld_fp := f\<rparr>"
  by (simp add: accept_line_def Let_def)

lemma accept_line_line: "accept_line (st\<lparr>ld_line := x\<rparr>) l = accept_line st l"
  by (simp add: accept_line_def Let_def)

lemma absorb_fp:
  "foldl accept_line (st\<lparr>ld_fp := f\<rparr>) ls = (foldl accept_line st ls)\<lparr>ld_fp := f\<rparr>"
  by (induction ls arbitrary: st) (simp_all add: accept_line_fp)

lemma accept_line_line_empty: "(accept_line st l)\<lparr>ld_line := []\<rparr> = accept_line st l"
  by (simp add: accept_line_def Let_def)

lemma absorb_normal:
  "(foldl accept_line (st\<lparr>ld_fp := f, ld_line := x\<rparr>) ls)\<lparr>ld_fp := g, ld_line := []\<rparr> =
   (foldl accept_line st ls)\<lparr>ld_fp := g, ld_line := []\<rparr>"
  by (cases ls) (simp_all add: accept_line_line accept_line_fp absorb_fp)

lemma unread_at_newline:
  "NL \<in> set u \<Longrightarrow>
   u = takeWhile (\<lambda>x. x \<noteq> NL) u @ NL # tl (dropWhile (\<lambda>x. x \<noteq> NL) u)"
proof -
  assume "NL \<in> set u"
  then have "dropWhile (\<lambda>x. x \<noteq> NL) u \<noteq> []" by simp
  moreover have "hd (dropWhile (\<lambda>x. x \<noteq> NL) u) = NL"
    using \<open>NL \<in> set u\<close> hd_dropWhile [of "\<lambda>x. x \<noteq> NL" u] by auto
  ultimately have "dropWhile (\<lambda>x. x \<noteq> NL) u = NL # tl (dropWhile (\<lambda>x. x \<noteq> NL) u)"
    by (cases "dropWhile (\<lambda>x. x \<noteq> NL) u") simp_all
  then show ?thesis using takeWhile_dropWhile_id [of "\<lambda>x. x \<noteq> NL" u] by simp
qed

lemma segments_at_newline:
  assumes "NL \<in> set u"
  shows "segments NL u =
    takeWhile (\<lambda>x. x \<noteq> NL) u # segments NL (tl (dropWhile (\<lambda>x. x \<noteq> NL) u))"
proof -
  have "NL \<notin> set (takeWhile (\<lambda>x. x \<noteq> NL) u)" by (auto dest: set_takeWhileD)
  then have "segments NL (takeWhile (\<lambda>x. x \<noteq> NL) u @ NL # tl (dropWhile (\<lambda>x. x \<noteq> NL) u)) =
      takeWhile (\<lambda>x. x \<noteq> NL) u # segments NL (tl (dropWhile (\<lambda>x. x \<noteq> NL) u))"
    by (rule segments_append)
  then show ?thesis using unread_at_newline [OF assms] by simp
qed

lemma stuck_load_body: "stuck st \<Longrightarrow> stuck (load_body st)"
  by (auto simp add: stuck_def load_body_def getline_def)

lemma load_loop_stuck:
  assumes "load_loop st = Some y"
  shows "\<not> stuck st"
proof (rule load_loop.raw_induct [where P = "\<lambda>st y. \<not> stuck st", OF _ assms])
  fix f st y
  assume ih: "\<And>x y. f x = Some y \<Longrightarrow> \<not> stuck x"
    and eq: "(if eofbit (ld_fp st) then Some st else f (load_body st)) = Some y"
  show "\<not> stuck st"
  proof
    assume s: "stuck st"
    then have "f (load_body st) = Some y" using eq by (simp add: stuck_def)
    then have "\<not> stuck (load_body st)" by (rule ih)
    then show False using stuck_load_body [OF s] by simp
  qed
qed

lemma load_loop_stuck_None: "stuck st \<Longrightarrow> load_loop st = None"
  using load_loop_stuck [of st] by (cases "load_loop st") auto

lemma getline_line:
  assumes "\<not> eofbit fp" "\<not> failbit fp" "\<not> badbit fp" "NL \<in> set (unread fp)"
  shows "getline fp line =
    (fp\<lparr>unread := tl (dropWhile (\<lambda>x. x \<noteq> NL) (unread fp))\<rparr>,
     takeWhile (\<lambda>x. x \<noteq> NL) (unread fp))"
  using assms by (simp add: getline_def)

lemma getline_end:
  assumes "\<not> eofbit fp" "\<not> failbit fp" "\<not> badbit fp" "\<not> error_follows fp"
    "NL \<notin> set (unread fp)"
  shows "getline fp line =
    (\<lparr>unread = [], error_follows = False, eofbit = True, failbit = (unread fp = []),
      badbit = False\<rparr>, unread fp)"
  using assms by (cases fp) (simp add: getline_def)

lemma getline_error:
  assumes "\<not> eofbit fp" "\<not> failbit fp" "\<not> badbit fp" "error_follows fp"
    "NL \<notin> set (unread fp)"
  shows "getline fp line =
    (fp\<lparr>unread := [], failbit := (unread fp = []), badbit := True\<rparr>, unread fp)"
  using assms by (simp add: getline_def)

lemma load_body_error:
  assumes "\<not> eofbit (ld_fp st)" "\<not> failbit (ld_fp st)" "\<not> badbit (ld_fp st)"
    "error_follows (ld_fp st)" "NL \<notin> set (unread (ld_fp st))"
  shows "stuck (load_body st)"
proof -
  let ?u = "unread (ld_fp st)"
  let ?fp = "(ld_fp st)\<lparr>unread := [], failbit := (?u = []), badbit := True\<rparr>"
  have g: "getline (ld_fp st) (ld_line st) = (?fp, ?u)" using assms by (rule getline_error)
  show ?thesis
  proof (cases "?u = []")
    case True
    then show ?thesis using g assms(1) by (simp add: load_body_def stuck_def)
  next
    case False
    then have "load_body st = (accept_line st ?u)\<lparr>ld_fp := ?fp\<rparr>"
      using g by (simp add: load_body_def accept_line_fp accept_line_line)
    moreover have "ld_line (accept_line st ?u) = []" by (simp add: accept_line_def Let_def)
    ultimately show ?thesis using assms(1) by (simp add: stuck_def)
  qed
qed

lemma load_loop_opened:
  "\<not> eofbit (ld_fp st) \<Longrightarrow> \<not> failbit (ld_fp st) \<Longrightarrow> \<not> badbit (ld_fp st) \<Longrightarrow>
   load_loop st =
     (if error_follows (ld_fp st) then None
      else Some ((foldl accept_line st (nonblank_lines (unread (ld_fp st))))
        \<lparr>ld_fp := finished (unread (ld_fp st)), ld_line := []\<rparr>))"
proof (induction "length (unread (ld_fp st))" arbitrary: st rule: less_induct)
  case less
  let ?u = "unread (ld_fp st)"
  show ?case
  proof (cases "NL \<in> set ?u")
    case True
    let ?l = "takeWhile (\<lambda>x. x \<noteq> NL) ?u"
    let ?rest = "tl (dropWhile (\<lambda>x. x \<noteq> NL) ?u)"
    let ?fp = "(ld_fp st)\<lparr>unread := ?rest\<rparr>"
    have g: "getline (ld_fp st) (ld_line st) = (?fp, ?l)"
      using less.prems True by (rule getline_line)
    have seg: "segments NL ?u = ?l # segments NL ?rest" using True by (rule segments_at_newline)
    have "length ?u = length (?l @ NL # ?rest)" using unread_at_newline [OF True] by simp
    then have shorter: "length ?rest < length ?u" by simp
    have fin: "finished ?u = finished ?rest" using seg by (simp add: finished_def)
    show ?thesis
    proof (cases "?l = []")
      case True
      let ?st' = "st\<lparr>ld_fp := ?fp, ld_line := []\<rparr>"
      have b: "load_body st = ?st'" using g True by (simp add: load_body_def)
      have nb: "nonblank_lines ?u = nonblank_lines ?rest"
        using seg True by (simp add: nonblank_lines_def)
      have "load_loop st = load_loop ?st'"
        using less.prems b by (subst load_loop.simps) simp
      also have "\<dots> = (if error_follows (ld_fp st) then None
          else Some ((foldl accept_line ?st' (nonblank_lines ?rest))
            \<lparr>ld_fp := finished ?rest, ld_line := []\<rparr>))"
        using less.hyps [of ?st'] shorter less.prems by simp
      also have "\<dots> = (if error_follows (ld_fp st) then None
          else Some ((foldl accept_line st (nonblank_lines ?u))
            \<lparr>ld_fp := finished ?u, ld_line := []\<rparr>))"
        by (simp add: nb fin absorb_normal)
      finally show ?thesis .
    next
      case False
      let ?st' = "(accept_line st ?l)\<lparr>ld_fp := ?fp\<rparr>"
      have b: "load_body st = ?st'"
        using g False by (simp add: load_body_def accept_line_fp accept_line_line)
      have nb: "nonblank_lines ?u = ?l # nonblank_lines ?rest"
        using seg False by (simp add: nonblank_lines_def)
      have fp': "ld_fp ?st' = ?fp" by simp
      have "load_loop st = load_loop ?st'"
        using less.prems b by (subst load_loop.simps) simp
      also have "\<dots> = (if error_follows (ld_fp st) then None
          else Some ((foldl accept_line ?st' (nonblank_lines ?rest))
            \<lparr>ld_fp := finished ?rest, ld_line := []\<rparr>))"
        using less.hyps [of ?st'] shorter less.prems unfolding fp' by simp
      also have "\<dots> = (if error_follows (ld_fp st) then None
          else Some ((foldl accept_line st (nonblank_lines ?u))
            \<lparr>ld_fp := finished ?u, ld_line := []\<rparr>))"
        by (simp add: nb fin absorb_fp)
      finally show ?thesis .
    qed
  next
    case False
    show ?thesis
    proof (cases "error_follows (ld_fp st)")
      case True
      have "stuck (load_body st)" using less.prems True False by (rule load_body_error)
      then have "load_loop (load_body st) = None" by (rule load_loop_stuck_None)
      then have "load_loop st = None" using less.prems by (subst load_loop.simps) simp
      then show ?thesis using True by simp
    next
      case noerr: False
      let ?fp = "\<lparr>unread = [], error_follows = False, eofbit = True, failbit = (?u = []),
        badbit = False\<rparr>"
      have g: "getline (ld_fp st) (ld_line st) = (?fp, ?u)"
        using less.prems noerr False by (rule getline_end)
      have seg: "segments NL ?u = [?u]" using False by (rule segments_no_separator)
      have fin: "finished ?u = ?fp" using seg by (simp add: finished_def)
      show ?thesis
      proof (cases "?u = []")
        case True
        have b: "load_body st = st\<lparr>ld_fp := ?fp, ld_line := []\<rparr>"
          using g True by (simp add: load_body_def)
        have "load_loop st = load_loop (st\<lparr>ld_fp := ?fp, ld_line := []\<rparr>)"
          using less.prems b by (subst load_loop.simps) simp
        also have "\<dots> = Some (st\<lparr>ld_fp := ?fp, ld_line := []\<rparr>)"
          by (subst load_loop.simps) simp
        finally show ?thesis using seg True fin noerr by (simp add: nonblank_lines_def)
      next
        case False
        have b: "load_body st = (accept_line st ?u)\<lparr>ld_fp := ?fp\<rparr>"
          using g False by (simp add: load_body_def accept_line_fp accept_line_line)
        have "load_loop st = load_loop ((accept_line st ?u)\<lparr>ld_fp := ?fp\<rparr>)"
          using less.prems b by (subst load_loop.simps) simp
        also have "\<dots> = Some ((accept_line st ?u)\<lparr>ld_fp := ?fp\<rparr>)"
          by (subst load_loop.simps) simp
        also have "\<dots> = Some ((accept_line st ?u)\<lparr>ld_fp := ?fp, ld_line := []\<rparr>)"
          using accept_line_line_empty [of st ?u] by (simp add: accept_line_def Let_def)
        finally show ?thesis
          using seg False fin noerr by (simp add: nonblank_lines_def)
      qed
    qed
  qed
qed

subsection \<open>The records kept and the lines dropped\<close>

lemma accept_line_malformed:
  "chunk_count l \<le> 1 \<or> (0 \<le> ld_num_fields st \<and> int (chunk_count l) - 1 \<noteq> ld_num_fields st) \<Longrightarrow>
   ld_num_fields (accept_line st l) = ld_num_fields st \<and>
   ld_lines (accept_line st l) = ld_lines st \<and>
   ld_cerr (accept_line st l) = ld_cerr st @ [malformed l]"
  by (auto simp add: accept_line_def Let_def chunk_count_def)

lemma accept_line_first:
  "2 \<le> chunk_count l \<Longrightarrow> ld_num_fields st < 0 \<Longrightarrow>
   ld_num_fields (accept_line st l) = int (chunk_count l) - 1 \<and>
   ld_lines (accept_line st l) = ld_lines st @ [parse_line l] \<and>
   ld_cerr (accept_line st l) = ld_cerr st"
  by (simp add: accept_line_def Let_def chunk_count_def parse_line_def)

lemma accept_line_kept:
  "2 \<le> chunk_count l \<Longrightarrow> int (chunk_count l) - 1 = ld_num_fields st \<Longrightarrow>
   ld_num_fields (accept_line st l) = ld_num_fields st \<and>
   ld_lines (accept_line st l) = ld_lines st @ [parse_line l] \<and>
   ld_cerr (accept_line st l) = ld_cerr st"
  by (simp add: accept_line_def Let_def chunk_count_def parse_line_def)

lemma absorb_fixed:
  "ld_num_fields st = int nf \<Longrightarrow> 1 \<le> nf \<Longrightarrow>
   ld_num_fields (foldl accept_line st ls) = int nf \<and>
   ld_lines (foldl accept_line st ls) =
     ld_lines st @ map parse_line (filter (\<lambda>l. chunk_count l = Suc nf) ls) \<and>
   ld_cerr (foldl accept_line st ls) =
     ld_cerr st @ map malformed (filter (\<lambda>l. chunk_count l \<noteq> Suc nf) ls)"
proof (induction ls arbitrary: st)
  case Nil
  then show ?case by simp
next
  case (Cons l ls)
  show ?case
  proof (cases "chunk_count l = Suc nf")
    case True
    then have "2 \<le> chunk_count l" "int (chunk_count l) - 1 = ld_num_fields st"
      using Cons.prems by simp_all
    then have a: "ld_num_fields (accept_line st l) = ld_num_fields st \<and>
        ld_lines (accept_line st l) = ld_lines st @ [parse_line l] \<and>
        ld_cerr (accept_line st l) = ld_cerr st"
      by (rule accept_line_kept)
    then show ?thesis using Cons.IH [of "accept_line st l"] Cons.prems True by simp
  next
    case False
    then have "chunk_count l \<le> 1 \<or>
        (0 \<le> ld_num_fields st \<and> int (chunk_count l) - 1 \<noteq> ld_num_fields st)"
      using Cons.prems by auto
    then have a: "ld_num_fields (accept_line st l) = ld_num_fields st \<and>
        ld_lines (accept_line st l) = ld_lines st \<and>
        ld_cerr (accept_line st l) = ld_cerr st @ [malformed l]"
      by (rule accept_line_malformed)
    then show ?thesis using Cons.IH [of "accept_line st l"] Cons.prems False by simp
  qed
qed

lemma absorb_unfixed:
  "ld_num_fields st < 0 \<Longrightarrow>
   (case List.find (\<lambda>l. 2 \<le> chunk_count l) ls of
      None \<Rightarrow>
        ld_lines (foldl accept_line st ls) = ld_lines st \<and>
        ld_cerr (foldl accept_line st ls) = ld_cerr st @ map malformed ls
    | Some first \<Rightarrow>
        ld_num_fields (foldl accept_line st ls) = int (chunk_count first) - 1 \<and>
        ld_lines (foldl accept_line st ls) =
          ld_lines st @ map parse_line (filter (\<lambda>l. chunk_count l = chunk_count first) ls) \<and>
        ld_cerr (foldl accept_line st ls) =
          ld_cerr st @ map malformed (filter (\<lambda>l. chunk_count l \<noteq> chunk_count first) ls))"
proof (induction ls arbitrary: st)
  case Nil
  then show ?case by simp
next
  case (Cons l ls)
  show ?case
  proof (cases "2 \<le> chunk_count l")
    case True
    obtain nf where nf: "chunk_count l = Suc nf" "1 \<le> nf"
      using True by (cases "chunk_count l") auto
    have a: "ld_num_fields (accept_line st l) = int (chunk_count l) - 1 \<and>
        ld_lines (accept_line st l) = ld_lines st @ [parse_line l] \<and>
        ld_cerr (accept_line st l) = ld_cerr st"
      using True Cons.prems by (rule accept_line_first)
    then have "ld_num_fields (accept_line st l) = int nf" using nf by simp
    then show ?thesis using absorb_fixed [of "accept_line st l" nf ls] nf a True by simp
  next
    case False
    then have "chunk_count l \<le> 1 \<or>
        (0 \<le> ld_num_fields st \<and> int (chunk_count l) - 1 \<noteq> ld_num_fields st)"
      by auto
    then have a: "ld_num_fields (accept_line st l) = ld_num_fields st \<and>
        ld_lines (accept_line st l) = ld_lines st \<and>
        ld_cerr (accept_line st l) = ld_cerr st @ [malformed l]"
      by (rule accept_line_malformed)
    then have neg: "ld_num_fields (accept_line st l) < 0" using Cons.prems by simp
    show ?thesis
    proof (cases "List.find (\<lambda>l. 2 \<le> chunk_count l) ls")
      case None
      then show ?thesis using Cons.IH [OF neg] a False by simp
    next
      case (Some first)
      then have "2 \<le> chunk_count first" by (auto simp add: find_Some_iff)
      then have "chunk_count l \<noteq> chunk_count first" using False by auto
      then show ?thesis using Cons.IH [OF neg] a False Some by simp
    qed
  qed
qed

lemma parse_line_fields: "length (line_fields (parse_line l)) = chunk_count l - 1"
  by (simp add: parse_line_def parse_chunks_def chunk_count_def)


lemma load_opened:
  "load (Readable content) =
     Some ((foldl accept_line (load_init (Readable content)) (nonblank_lines content))
       \<lparr>ld_fp := finished content, ld_line := []\<rparr>)"
  using load_loop_opened [of "load_init (Readable content)"]
  by (simp add: load_def load_init_def ifstream_open_def)

text \<open>
  A file that opens and then fails to be read, and a file that cannot be opened: the
  stream is never at its end, and \<^verbatim>\<open>load\<close> does not return.
\<close>

lemma load_failing: "load (Failing content) = None"
  using load_loop_opened [of "load_init (Failing content)"]
  by (simp add: load_def load_init_def ifstream_open_def)



lemma load_diagnostics:
  "\<exists>st. load (Readable content) = Some st \<and>
     (case List.find (\<lambda>l. 2 \<le> chunk_count l) (nonblank_lines content) of
        None \<Rightarrow> ld_lines st = [] \<and> ld_cerr st = map malformed (nonblank_lines content)
      | Some first \<Rightarrow>
          ld_lines st =
            map parse_line
              (filter (\<lambda>l. chunk_count l = chunk_count first) (nonblank_lines content)) \<and>
          ld_cerr st =
            map malformed
              (filter (\<lambda>l. chunk_count l \<noteq> chunk_count first) (nonblank_lines content)))"
proof -
  let ?ls = "nonblank_lines content"
  let ?f = "foldl accept_line (load_init (Readable content)) ?ls"
  let ?st = "?f\<lparr>ld_fp := finished content, ld_line := []\<rparr>"
  have init: "ld_num_fields (load_init (Readable content)) < 0"
    "ld_lines (load_init (Readable content)) = []" "ld_cerr (load_init (Readable content)) = []"
    by (simp_all add: load_init_def)
  have p: "ld_lines ?st = ld_lines ?f" "ld_cerr ?st = ld_cerr ?f" by simp_all
  have "case List.find (\<lambda>l. 2 \<le> chunk_count l) ?ls of
        None \<Rightarrow> ld_lines ?st = [] \<and> ld_cerr ?st = map malformed ?ls
      | Some first \<Rightarrow>
          ld_lines ?st = map parse_line (filter (\<lambda>l. chunk_count l = chunk_count first) ?ls) \<and>
          ld_cerr ?st = map malformed (filter (\<lambda>l. chunk_count l \<noteq> chunk_count first) ?ls)"
    unfolding p using absorb_unfixed [OF init(1), of ?ls]
    by (auto simp add: init split: option.splits)
  then show ?thesis using load_opened [of content] by blast
qed

text \<open>
  Claim C8. For every input file that opens and is read to its end, \<^verbatim>\<open>load\<close> returns,
  and every record of the store has the same number of fields: one less than the chunk
  count of the first line with at least two tab-delimited chunks. There is one record
  for each line with that chunk count; every other line that is not blank, so every
  line with at most one chunk and every later line with another count, is dropped with
  the diagnostic \<open>malformed line: \<close> and the line, and loading goes on.
\<close>

theorem load_uniform_field_count:
  "\<exists>st. load (Readable content) = Some st \<and>
     (case List.find (\<lambda>l. 2 \<le> chunk_count l) (nonblank_lines content) of
        None \<Rightarrow> ld_lines st = [] \<and> ld_cerr st = map malformed (nonblank_lines content)
      | Some first \<Rightarrow>
          (\<forall>r \<in> set (ld_lines st). length (line_fields r) = chunk_count first - 1) \<and>
          length (ld_lines st) =
            length (filter (\<lambda>l. chunk_count l = chunk_count first) (nonblank_lines content)) \<and>
          ld_cerr st =
            map malformed
              (filter (\<lambda>l. chunk_count l \<noteq> chunk_count first) (nonblank_lines content)))"
proof -
  obtain st where st: "load (Readable content) = Some st"
    and c: "case List.find (\<lambda>l. 2 \<le> chunk_count l) (nonblank_lines content) of
        None \<Rightarrow> ld_lines st = [] \<and> ld_cerr st = map malformed (nonblank_lines content)
      | Some first \<Rightarrow>
          ld_lines st =
            map parse_line
              (filter (\<lambda>l. chunk_count l = chunk_count first) (nonblank_lines content)) \<and>
          ld_cerr st =
            map malformed
              (filter (\<lambda>l. chunk_count l \<noteq> chunk_count first) (nonblank_lines content))"
    using load_diagnostics [of content] by blast
  have "case List.find (\<lambda>l. 2 \<le> chunk_count l) (nonblank_lines content) of
        None \<Rightarrow> ld_lines st = [] \<and> ld_cerr st = map malformed (nonblank_lines content)
      | Some first \<Rightarrow>
          (\<forall>r \<in> set (ld_lines st). length (line_fields r) = chunk_count first - 1) \<and>
          length (ld_lines st) =
            length (filter (\<lambda>l. chunk_count l = chunk_count first) (nonblank_lines content)) \<and>
          ld_cerr st =
            map malformed
              (filter (\<lambda>l. chunk_count l \<noteq> chunk_count first) (nonblank_lines content))"
    using c by (auto simp add: parse_line_fields split: option.splits)
  then show ?thesis using st by blast
qed

lemma mixed_file_lines:
  "List.find (\<lambda>l. 2 \<le> chunk_count l) (nonblank_lines mixed_file) = Some (''a'' @ [TAB] @ ''x y'')"
  "chunk_count (''a'' @ [TAB] @ ''x y'') = 2"
  "length (filter (\<lambda>l. chunk_count l = 2) (nonblank_lines mixed_file)) = 2"
  "filter (\<lambda>l. chunk_count l \<noteq> 2) (nonblank_lines mixed_file) =
     [''b'', ''c'' @ [TAB] @ ''z'' @ [TAB] @ ''d'']"
  "dropped_lines mixed_file = [''b'', ''c'' @ [TAB] @ ''z'' @ [TAB] @ ''d'']"
  by code_simp+

theorem load_uniform_field_count_witness:
  "\<exists>st. load (Readable mixed_file) = Some st \<and>
     map (\<lambda>r. length (line_fields r)) (ld_lines st) = [1, 1] \<and>
     ld_cerr st = [''malformed line: b'', ''malformed line: c'' @ [TAB] @ ''z'' @ [TAB] @ ''d'']"
proof -
  have "\<exists>st. load (Readable mixed_file) = Some st \<and>
     (\<forall>r \<in> set (ld_lines st). length (line_fields r) = 2 - 1) \<and>
     length (ld_lines st) = 2 \<and>
     ld_cerr st = map malformed [''b'', ''c'' @ [TAB] @ ''z'' @ [TAB] @ ''d'']"
    using load_uniform_field_count [of mixed_file] by (simp only: mixed_file_lines option.case)
  then obtain st where st: "load (Readable mixed_file) = Some st"
    and f: "\<forall>r \<in> set (ld_lines st). length (line_fields r) = 2 - 1"
    and n: "length (ld_lines st) = 2"
    and c: "ld_cerr st = map malformed [''b'', ''c'' @ [TAB] @ ''z'' @ [TAB] @ ''d'']"
    by blast
  obtain r0 r1 where "ld_lines st = [r0, r1]"
    using n by (auto simp add: length_Suc_conv numeral_2_eq_2)
  then have m: "map (\<lambda>r. length (line_fields r)) (ld_lines st) = [1, 1]" using f by simp
  have "ld_cerr st =
      [''malformed line: b'', ''malformed line: c'' @ [TAB] @ ''z'' @ [TAB] @ ''d'']"
    using c by (simp add: malformed_def)
  then show ?thesis using st m by (intro exI [of _ st]) simp
qed





section \<open>The run over the pairs\<close>

subsection \<open>The progress total and the progress bar\<close>

lemma pairs_product_not_multiple:
  assumes "2 \<le> n" "n < 2 ^ 64"
  shows "\<not> (2 ^ 64 :: nat) dvd n * (n - 1)"
proof
  assume d: "(2 ^ 64 :: nat) dvd n * (n - 1)"
  show False
  proof (cases "even n")
    case True
    then have "odd (n - 1)" using assms(1) by simp
    then have "coprime (2 ^ 64 :: nat) (n - 1)"
      by (meson coprime_left_2_iff_odd coprime_power_left_iff)
    then have "(2 ^ 64 :: nat) dvd n" using d by (simp add: coprime_dvd_mult_left_iff)
    then have "2 ^ 64 \<le> n" using assms(1) by (intro dvd_imp_le) simp_all
    then show False using assms(2) by simp
  next
    case False
    then have "coprime (2 ^ 64 :: nat) n"
      by (meson coprime_left_2_iff_odd coprime_power_left_iff)
    then have "(2 ^ 64 :: nat) dvd n - 1" using d by (simp add: coprime_dvd_mult_right_iff)
    then have "2 ^ 64 \<le> n - 1" using assms(1) by (intro dvd_imp_le) simp_all
    then show False using assms(2) by simp
  qed
qed

lemma progress_total_unat:
  assumes "1 \<le> n"
  shows "unat (progress_total n) = ((n * (n - 1)) mod 2 ^ 64) div 2"
proof -
  have "(word_of_nat n :: 64 word) - 1 = word_of_nat (n - 1)" using assms by simp
  then have "(word_of_nat n :: 64 word) * (word_of_nat n - 1) = word_of_nat (n * (n - 1))"
    by simp
  moreover have "unat (word_of_nat (n * (n - 1)) :: 64 word) = (n * (n - 1)) mod 2 ^ 64"
    by (simp add: unat_of_nat del: of_nat_mult)
  ultimately have "unat ((word_of_nat n :: 64 word) * (word_of_nat n - 1)) =
      (n * (n - 1)) mod 2 ^ 64"
    by (simp only:)
  then show ?thesis by (simp only: progress_total_def unat_div) simp
qed

lemma progress_total_nonzero:
  assumes "2 \<le> n" "n < 2 ^ 64"
  shows "progress_total n \<noteq> 0"
proof -
  let ?x = "(n * (n - 1)) mod 2 ^ 64"
  have "even (n * (n - 1))" using assms(1) by (cases "even n") simp_all
  then have e: "even ?x" by (simp add: dvd_mod)
  have "?x \<noteq> 0" using pairs_product_not_multiple [OF assms] by (simp add: dvd_eq_mod_eq_0)
  moreover have "even x \<Longrightarrow> x \<noteq> 0 \<Longrightarrow> 1 \<le> x div 2" for x :: nat by presburger
  ultimately have "1 \<le> ?x div 2" using e by blast
  then have "unat (progress_total n) \<noteq> 0" using progress_total_unat [of n] assms(1) by simp
  then show ?thesis by (auto simp add: unat_eq_0)
qed

lemma progress_total_small: "n \<le> 1 \<Longrightarrow> progress_total n = 0"
proof -
  assume "n \<le> 1"
  then have "n = 0 \<or> n = 1" by auto
  then show ?thesis by (auto simp add: progress_total_def)
qed

lemma print_nonzero: "pb_total p \<noteq> 0 \<Longrightarrow> print p = Inr p"
  by (simp add: print_def Let_def)

lemma print_zero: "print \<lparr>pb_current = 0, pb_total = 0\<rparr> = Inl DivisionByZero"
  by (simp add: print_def Let_def)

lemma inc_nonzero:
  "pb_total p \<noteq> 0 \<Longrightarrow> \<exists>p'. inc p = Inr p' \<and> pb_total p' = pb_total p"
  by (simp add: inc_def print_nonzero)

subsection \<open>The loops\<close>

lemma process_ok:
  "pb_total (progbar st) \<noteq> 0 \<Longrightarrow>
   \<exists>st'. process st one two = Inr st' \<and>
     fout st' = put (fout st) (result_line one two) \<and>
     calls st' = calls st \<and> pb_total (progbar st') = pb_total (progbar st)"
  using inc_nonzero [of "progbar st"] by (auto simp add: process_def Let_def)

lemma inner_pairs_ok:
  "pb_total (progbar st) \<noteq> 0 \<Longrightarrow>
   \<exists>st'. inner_pairs lines i j st = Inr st' \<and>
     calls st' = calls st @ map (Pair i) [j..<length lines] \<and>
     fout st' = foldl put (fout st) (map (\<lambda>b. result_line (lines ! i) (lines ! b)) [j..<length lines]) \<and>
     pb_total (progbar st') = pb_total (progbar st)"
proof (induction lines i j st rule: inner_pairs.induct)
  case (1 lines i j st)
  show ?case
  proof (cases "j < length lines")
    case True
    let ?st1 = "st\<lparr>calls := calls st @ [(i, j)]\<rparr>"
    obtain st2 where p: "process ?st1 (lines ! i) (lines ! j) = Inr st2"
      and f: "fout st2 = put (fout st) (result_line (lines ! i) (lines ! j))"
      and c: "calls st2 = calls st @ [(i, j)]"
      and t: "pb_total (progbar st2) = pb_total (progbar st)"
      using process_ok [of ?st1 "lines ! i" "lines ! j"] "1.prems" by auto
    obtain st' where r: "inner_pairs lines i (j + 1) st2 = Inr st'"
      and c': "calls st' = calls st2 @ map (Pair i) [j + 1..<length lines]"
      and f': "fout st' = foldl put (fout st2)
          (map (\<lambda>b. result_line (lines ! i) (lines ! b)) [j + 1..<length lines])"
      and t': "pb_total (progbar st') = pb_total (progbar st2)"
      using "1.IH" [OF True p] "1.prems" t by auto
    have "inner_pairs lines i j st = Inr st'"
      using True p r by (subst inner_pairs.simps) simp
    then show ?thesis using c c' f f' t t' True by (simp add: upt_conv_Cons)
  next
    case False
    then show ?thesis by (subst inner_pairs.simps) simp
  qed
qed

lemma pairs_from_step:
  "i < n \<Longrightarrow> pairs_from i n = map (Pair i) [Suc i..<n] @ pairs_from (Suc i) n"
  by (simp add: pairs_from_def upt_conv_Cons)

lemma pairs_from_done: "n \<le> i \<Longrightarrow> pairs_from i n = []"
  by (simp add: pairs_from_def)

lemma outer_pairs_ok:
  "pb_total (progbar st) \<noteq> 0 \<Longrightarrow>
   \<exists>st'. outer_pairs lines i st = Inr st' \<and>
     calls st' = calls st @ pairs_from i (length lines) \<and>
     fout st' = foldl put (fout st)
       (map (\<lambda>(a, b). result_line (lines ! a) (lines ! b)) (pairs_from i (length lines))) \<and>
     pb_total (progbar st') = pb_total (progbar st)"
proof (induction lines i st rule: outer_pairs.induct)
  case (1 lines i st)
  show ?case
  proof (cases "i < length lines")
    case True
    obtain st2 where p: "inner_pairs lines i (i + 1) st = Inr st2"
      and c: "calls st2 = calls st @ map (Pair i) [i + 1..<length lines]"
      and f: "fout st2 = foldl put (fout st)
          (map (\<lambda>b. result_line (lines ! i) (lines ! b)) [i + 1..<length lines])"
      and t: "pb_total (progbar st2) = pb_total (progbar st)"
      using inner_pairs_ok [OF "1.prems", of lines i "i + 1"] by auto
    obtain st' where r: "outer_pairs lines (i + 1) st2 = Inr st'"
      and c': "calls st' = calls st2 @ pairs_from (i + 1) (length lines)"
      and f': "fout st' = foldl put (fout st2)
          (map (\<lambda>(a, b). result_line (lines ! a) (lines ! b)) (pairs_from (i + 1) (length lines)))"
      and t': "pb_total (progbar st') = pb_total (progbar st2)"
      using "1.IH" [OF True p] "1.prems" t by auto
    have "outer_pairs lines i st = Inr st'"
      using True p r by (subst outer_pairs.simps) simp
    then show ?thesis
      using c c' f f' t t' pairs_from_step [OF True] by (simp add: comp_def)
  next
    case False
    then show ?thesis by (subst outer_pairs.simps) (simp add: pairs_from_done)
  qed
qed

lemma outer_pairs_none: "length lines \<le> 1 \<Longrightarrow> outer_pairs lines 0 st = Inr st"
proof -
  assume a: "length lines \<le> 1"
  have i: "inner_pairs lines 0 (0 + 1) st = Inr st"
    using a by (subst inner_pairs.simps) simp
  have o: "outer_pairs lines (0 + 1) st = Inr st"
    using a by (subst outer_pairs.simps) simp
  show ?thesis
    using i o a by (subst outer_pairs.simps) simp
qed

lemma put_all:
  "written (foldl put f xs) = (if of_failbit f then written f else written f @ concat xs)"
  by (induction xs arbitrary: f) (simp_all add: put_def)

lemma set_pairs_from: "set (pairs_from i n) = {(a, b). i \<le> a \<and> a < b \<and> b < n}"
proof (intro set_eqI iffI)
  fix p assume "p \<in> set (pairs_from i n)"
  then show "p \<in> {(a, b). i \<le> a \<and> a < b \<and> b < n}" by (auto simp add: pairs_from_def)
next
  fix p assume "p \<in> {(a, b). i \<le> a \<and> a < b \<and> b < n}"
  then obtain a b where p: "p = (a, b)" "i \<le> a" "a < b" "b < n" by auto
  then have "a \<in> set [i..<n]" "p \<in> set (map (Pair a) [Suc a..<n])" by auto
  then have "\<exists>a \<in> set [i..<n]. p \<in> set (map (Pair a) [Suc a..<n])" by (rule bexI [rotated])
  then show "p \<in> set (pairs_from i n)" by (simp add: pairs_from_def)
qed

lemma distinct_pairs_from: "distinct (pairs_from i n)"
proof (induction "n - i" arbitrary: i)
  case 0
  then show ?case by (simp add: pairs_from_done)
next
  case (Suc k)
  then have lt: "i < n" and k: "k = n - Suc i" by simp_all
  have "distinct (map (Pair i) [Suc i..<n])" by (simp add: distinct_map inj_on_def)
  moreover have "set (map (Pair i) [Suc i..<n]) \<inter> set (pairs_from (Suc i) n) = {}"
    by (auto simp add: set_pairs_from)
  ultimately show ?case using Suc.hyps(1) [OF k] pairs_from_step [OF lt] by simp
qed

lemma triangle_step: "k + k * (k - 1) div 2 = Suc k * k div (2::nat)"
proof (cases k)
  case 0
  then show ?thesis by simp
next
  case (Suc m)
  have "Suc (Suc m) * Suc m = Suc m * m + Suc m * 2" by simp
  then have "Suc (Suc m) * Suc m div 2 = (Suc m * m + Suc m * 2) div 2" by (simp only:)
  also have "\<dots> = Suc m * m div 2 + Suc m"
  proof -
    have "(a + b * 2) div 2 = a div 2 + b" for a b :: nat by presburger
    then show ?thesis .
  qed
  finally show ?thesis using Suc by simp
qed

lemma length_pairs_from: "length (pairs_from i n) = (n - i) * (n - i - 1) div 2"
proof (induction "n - i" arbitrary: i)
  case 0
  then show ?case by (simp add: pairs_from_done)
next
  case (Suc k)
  then have lt: "i < n" and k: "k = n - Suc i" by simp_all
  have e: "n - i = Suc k" using Suc.hyps(2) by simp
  have "length (pairs_from i n) = k + length (pairs_from (Suc i) n)"
    using pairs_from_step [OF lt] k by simp
  also have "\<dots> = k + k * (k - 1) div 2" using Suc.hyps(1) [OF k] k by simp
  also have "\<dots> = Suc k * k div 2" by (rule triangle_step)
  also have "\<dots> = (n - i) * (n - i - 1) div 2" by (simp only: e diff_Suc_1)
  finally show ?case .
qed

subsection \<open>The whole run\<close>

lemma field_distances_nth:
  "map (\<lambda>ed. TAB # decimal ed) (field_distances one two) =
   map (\<lambda>k. TAB # decimal (slow_edit_distance (line_fields one ! k) (line_fields two ! k)))
     [0..<length (line_fields one)]"
  by (simp add: field_distances_def comp_def)

lemma run_store_small:
  "length lines \<le> 1 \<Longrightarrow>
   run_store lines creatable =
     Inl (DivisionByZero,
       \<lparr>fout = ofstream_open creatable, progbar = \<lparr>pb_current = 0, pb_total = 0\<rparr>, calls = []\<rparr>)"
  by (simp add: run_store_def Progbar_new_def progress_total_small print_zero)

lemma run_store_large:
  assumes "2 \<le> length lines" "length lines < 2 ^ 64"
  shows "\<exists>st. run_store lines creatable = Inr st \<and>
     calls st = pairs_from 0 (length lines) \<and>
     fout st = foldl put (ofstream_open creatable)
       (map (\<lambda>(a, b). result_line (lines ! a) (lines ! b)) (pairs_from 0 (length lines)))"
proof -
  let ?t = "progress_total (length lines)"
  let ?p = "\<lparr>pb_current = 0, pb_total = ?t\<rparr>"
  let ?st0 = "\<lparr>fout = ofstream_open creatable, progbar = ?p, calls = []\<rparr>"
  have nz: "?t \<noteq> 0" using assms by (rule progress_total_nonzero)
  then have n: "Progbar_new ?t = Inr ?p" by (simp add: Progbar_new_def print_nonzero)
  have "pb_total (progbar (?st0\<lparr>progbar := ?p\<rparr>)) \<noteq> 0" using nz by simp
  then obtain st where "outer_pairs lines 0 (?st0\<lparr>progbar := ?p\<rparr>) = Inr st"
    and "calls st = calls (?st0\<lparr>progbar := ?p\<rparr>) @ pairs_from 0 (length lines)"
    and "fout st = foldl put (fout (?st0\<lparr>progbar := ?p\<rparr>))
       (map (\<lambda>(a, b). result_line (lines ! a) (lines ! b)) (pairs_from 0 (length lines)))"
    using outer_pairs_ok [of "?st0\<lparr>progbar := ?p\<rparr>" lines 0] by blast
  then show ?thesis using n by (simp add: run_store_def)
qed

lemma run_store_final:
  assumes "length lines < 2 ^ 64"
  shows "calls (final_state (run_store lines creatable)) = pairs_from 0 (length lines) \<and>
     written (fout (final_state (run_store lines creatable))) =
       (if creatable
        then concat (map (\<lambda>(a, b). result_line (lines ! a) (lines ! b))
               (pairs_from 0 (length lines)))
        else [])"
proof (cases "length lines \<le> 1")
  case True
  then have "pairs_from 0 (length lines) = []"
    by (cases "length lines = 0") (simp_all add: pairs_from_def)
  then show ?thesis
    using run_store_small [OF True] by (simp add: final_state_def ofstream_open_def)
next
  case False
  then have "2 \<le> length lines" by simp
  then obtain st where "run_store lines creatable = Inr st"
    and "calls st = pairs_from 0 (length lines)"
    and "fout st = foldl put (ofstream_open creatable)
       (map (\<lambda>(a, b). result_line (lines ! a) (lines ! b)) (pairs_from 0 (length lines)))"
    using run_store_large [OF _ assms] by blast
  then show ?thesis by (simp add: final_state_def put_all ofstream_open_def)
qed

text \<open>
  Claim C2. For every store of \<open>n\<close> records (\<open>n\<close> below \<open>2^64\<close>, as the size of a vector
  is), given as \<^verbatim>\<open>process\<close> reads it, the loops of \<^verbatim>\<open>run\<close> call \<^verbatim>\<open>process\<close> exactly
  once for each pair of indices \<open>i < j < n\<close>: the calls are distinct, they are exactly
  these pairs, and there are \<open>n * (n - 1) / 2\<close> of them. The line written for a pair
  holds the two identifiers and then, field by field in field order,
  \<open>slow_edit_distance\<close> of the two records' fields.
\<close>

theorem run_processes_each_pair_once:
  assumes "length lines < 2 ^ 64"
  shows "distinct (calls (final_state (run_store lines creatable))) \<and>
     set (calls (final_state (run_store lines creatable))) =
       {(i, j). i < j \<and> j < length lines} \<and>
     length (calls (final_state (run_store lines creatable))) =
       length lines * (length lines - 1) div 2 \<and>
     written (fout (final_state (run_store lines creatable))) =
       (if creatable
        then concat (map (\<lambda>(i, j).
               line_id (lines ! i) @ [TAB] @ line_id (lines ! j) @
               concat (map (\<lambda>k. TAB # decimal (slow_edit_distance
                             (line_fields (lines ! i) ! k) (line_fields (lines ! j) ! k)))
                         [0..<length (line_fields (lines ! i))]) @ [NL])
               (calls (final_state (run_store lines creatable))))
        else [])"
proof -
  let ?r = "run_store lines creatable"
  have f: "calls (final_state ?r) = pairs_from 0 (length lines)"
    "written (fout (final_state ?r)) =
       (if creatable
        then concat (map (\<lambda>(a, b). result_line (lines ! a) (lines ! b))
               (pairs_from 0 (length lines)))
        else [])"
    using run_store_final [OF assms, of creatable] by simp_all
  have l: "result_line one two =
      line_id one @ [TAB] @ line_id two @
      concat (map (\<lambda>k. TAB # decimal (slow_edit_distance (line_fields one ! k) (line_fields two ! k)))
        [0..<length (line_fields one)]) @ [NL]" for one two
    by (simp only: result_line_def field_distances_nth)
  have "distinct (calls (final_state ?r))" by (simp only: f distinct_pairs_from)
  moreover have "set (calls (final_state ?r)) = {(i, j). i < j \<and> j < length lines}"
    by (simp add: f set_pairs_from)
  moreover have "length (calls (final_state ?r)) = length lines * (length lines - 1) div 2"
    by (simp add: f length_pairs_from)
  moreover have "written (fout (final_state ?r)) =
       (if creatable
        then concat (map (\<lambda>(i, j).
               line_id (lines ! i) @ [TAB] @ line_id (lines ! j) @
               concat (map (\<lambda>k. TAB # decimal (slow_edit_distance
                             (line_fields (lines ! i) ! k) (line_fields (lines ! j) ! k)))
                         [0..<length (line_fields (lines ! i))]) @ [NL])
               (calls (final_state ?r)))
        else [])"
    by (simp only: f l)
  ultimately show ?thesis by blast
qed

theorem run_processes_each_pair_once_witness:
  "set (calls (final_state (run_store three_records True))) = {(0, 1), (0, 2), (1, 2)} \<and>
   length (calls (final_state (run_store three_records True))) = 3"
proof -
  have n: "length three_records = 3" by (simp add: three_records_def)
  have b: "length three_records < 2 ^ 64" by (simp add: n)
  have s: "{(i, j). i < j \<and> j < (3::nat)} = {(0, 1), (0, 2), (1, 2)}" by auto
  have "set (calls (final_state (run_store three_records True))) = {(i, j). i < j \<and> j < (3::nat)} \<and>
    length (calls (final_state (run_store three_records True))) = 3 * (3 - 1) div 2"
    using run_processes_each_pair_once [OF b, of True] unfolding n by blast
  then show ?thesis unfolding s by simp
qed

text \<open>
  Claim C5. For every input whose loaded store has at most one record, the progress
  total handed to the progress bar is \<open>0\<close>, no pair is processed and nothing is written
  to the output. The run ends in the constructor of the progress bar, whose
  \<^verbatim>\<open>print\<close> divides by the total; the loops, were they reached, would not call
  \<^verbatim>\<open>process\<close> either.
\<close>

theorem run_with_at_most_one_record:
  assumes "load file = Some loaded" and "length (ld_lines loaded) \<le> 1"
  shows "\<exists>st. run file creatable = Some (ld_cerr loaded, Inl (DivisionByZero, st)) \<and>
     calls st = [] \<and> written (fout st) = [] \<and> pb_total (progbar st) = 0 \<and>
     outer_pairs (ld_lines loaded) 0 st = Inr st"
  using assms run_store_small [OF assms(2), of creatable] outer_pairs_none [OF assms(2)]
  by (simp add: run_def ofstream_open_def)

theorem run_with_at_most_one_record_witness:
  "\<exists>st. run (Readable single_file) True = Some ([], Inl (DivisionByZero, st)) \<and>
     calls st = [] \<and> written (fout st) = [] \<and> pb_total (progbar st) = 0"
proof -
  have "map_option (\<lambda>st. (length (ld_lines st), ld_cerr st)) (load (Readable single_file)) =
      Some (1, [])"
    by code_simp
  then obtain loaded where l: "load (Readable single_file) = Some loaded"
    and n: "length (ld_lines loaded) \<le> 1" and c: "ld_cerr loaded = []"
    by auto
  show ?thesis using run_with_at_most_one_record [OF l n, of True] unfolding c by auto
qed

section \<open>The program as a whole\<close>










text \<open>
  Claim C6, as amended. When at least two arguments follow the program name and
  \<open>--help\<close> is the first or the second of them, the program prints the usage text and
  exits with status \<open>0\<close>. With fewer than two arguments, also when \<open>--help\<close> is the only
  one, it prints the usage text and exits with the failure status \<open>1\<close>: the count of
  the arguments is tested first.
\<close>

theorem help_and_argument_count:
  "(3 \<le> length argv \<and> (argv ! 1 = ''--help'' \<or> argv ! 2 = ''--help'') \<longrightarrow>
      main version argv e =
        Some \<lparr>ending = Exit EXIT_SUCCESS, stderr = [usage (argv ! 0)], outfile = None\<rparr>) \<and>
   (length argv < 3 \<longrightarrow>
      main version argv e =
        Some \<lparr>ending = Exit EXIT_FAILURE, stderr = [usage (argv ! 0)], outfile = None\<rparr>) \<and>
   EXIT_SUCCESS = 0 \<and> EXIT_FAILURE = 1"
  by (auto simp add: main_def EXIT_SUCCESS_def EXIT_FAILURE_def)

theorem help_and_argument_count_witness:
  "main ''1.0'' [''aped'', ''--help'', ''out''] unreadable_env =
     Some \<lparr>ending = Exit 0, stderr = [''usage: aped <input file> <output file> [<field>]''],
       outfile = None\<rparr> \<and>
   main ''1.0'' [''aped'', ''in'', ''--help''] unreadable_env =
     Some \<lparr>ending = Exit 0, stderr = [''usage: aped <input file> <output file> [<field>]''],
       outfile = None\<rparr>"
  using help_and_argument_count [of "[''aped'', ''--help'', ''out'']" "''1.0''" unreadable_env]
    help_and_argument_count [of "[''aped'', ''in'', ''--help'']" "''1.0''" unreadable_env]
  by (simp add: usage_def)

text \<open>
  Claim C6 as stated includes the case where \<open>--help\<close> is the only argument. Then
  \<open>argc\<close> is \<open>2\<close>, and the program exits with the failure status.
\<close>

theorem help_alone_counterexample:
  "main ''1.0'' [''aped'', ''--help''] unreadable_env =
     Some \<lparr>ending = Exit 1, stderr = [''usage: aped <input file> <output file> [<field>]''],
       outfile = None\<rparr>"
  by (simp add: main_def usage_def EXIT_FAILURE_def)

end
